theory Spec2Isabelle
  imports Main "HOL-Library.Sublist"
begin

section \<open>The batch sanitization pipeline (pipeline.py)\<close>

text \<open>
  A shallow embedding of \<^verbatim>\<open>src/pipeline.py\<close>. Python strings are lists of code points,
  Python lists are HOL lists, a loop is a recursive function, a raised exception is the
  \<open>Inl\<close> branch of a sum, and a loop that may run forever returns \<open>None\<close> for
  "never returns". Functions of Python's standard library that the pipeline calls but
  does not define (\<^verbatim>\<open>json.loads\<close>, \<^verbatim>\<open>str\<close> on non-strings) and the
  external generation service are parameters of the model.
\<close>

subsection \<open>Python values and errors\<close>

text \<open>
  A Python \<^verbatim>\<open>str\<close> is the list of its code points, natural numbers up to 0x10FFFF,
  the surrogates 0xD800 to 0xDFFF included: a \<^verbatim>\<open>str\<close> may hold a lone surrogate, and
  \<^verbatim>\<open>json.loads\<close> returns one for the escape of a lone surrogate. \<open>text_of\<close> gives
  the \<^verbatim>\<open>str\<close> of a literal.
\<close>

type_synonym pystr = "nat list"

definition text_of :: "string \<Rightarrow> pystr" where
  "text_of s = map of_char s"

text \<open>What \<^verbatim>\<open>json.loads\<close> can return; a float is kept as mantissa and exponent.\<close>

datatype pyval =
    PStr pystr
  | PList "pyval list"
  | PNone
  | PBool bool
  | PInt int
  | PFloat int int
  | PDict "(pystr \<times> pyval) list"

datatype py_error = IndexError | ValueError | UnicodeEncodeError

subsection \<open>String operations of Python used by the pipeline\<close>

text \<open>
  \<^verbatim>\<open>s.partition(p)\<close> without the separator: the text before and after the first
  occurrence of \<open>p\<close> in \<open>s\<close>, or \<open>None\<close> when \<open>p\<close> does not occur.
\<close>

fun partition_at :: "pystr \<Rightarrow> pystr \<Rightarrow> (pystr \<times> pystr) option" where
  "partition_at p [] = (if p = [] then Some ([], []) else None)"
| "partition_at p (c # cs) =
     (if prefix p (c # cs) then Some ([], drop (length p) (c # cs))
      else (case partition_at p cs of
              None \<Rightarrow> None
            | Some (before, after) \<Rightarrow> Some (c # before, after)))"

text \<open>\<^verbatim>\<open>p in s\<close> on strings.\<close>

definition contains :: "pystr \<Rightarrow> pystr \<Rightarrow> bool" where
  "contains p s = (partition_at p s \<noteq> None)"

text \<open>
  \<^verbatim>\<open>str.strip()\<close> removes the characters for which \<^verbatim>\<open>str.isspace()\<close> holds from
  both ends: U+0009 to U+000D, U+001C to U+0020, U+0085, U+00A0, U+1680, U+2000 to
  U+200A, U+2028, U+2029, U+202F, U+205F and U+3000.
\<close>

definition is_space :: "nat \<Rightarrow> bool" where
  "is_space c =
     (c \<in> {9, 10, 11, 12, 13, 28, 29, 30, 31, 32, 133, 160, 5760,
           8192, 8193, 8194, 8195, 8196, 8197, 8198, 8199, 8200, 8201, 8202,
           8232, 8233, 8239, 8287, 12288})"

definition strip :: "pystr \<Rightarrow> pystr" where
  "strip s = rev (dropWhile is_space (rev (dropWhile is_space s)))"

text \<open>
  \<^verbatim>\<open>str.lower()\<close>, kept to what the pipeline uses it for, the test
  \<^verbatim>\<open>"quota" in error_str.lower()\<close>: the letters A to Z are lowered and every other
  character is left as it is. Python also lowers letters outside ASCII, but the
  lower-case form of a character outside ASCII contains no ASCII character other than
  \<^verbatim>\<open>i\<close> (from U+0130) and \<^verbatim>\<open>k\<close> (from U+212A), so \<^verbatim>\<open>quota\<close> occurs in the one
  lowered text exactly when it occurs in the other.
\<close>

definition lower_char :: "nat \<Rightarrow> nat" where
  "lower_char c = (if 65 \<le> c \<and> c \<le> 90 then c + 32 else c)"

definition lower :: "pystr \<Rightarrow> pystr" where
  "lower s = map lower_char s"

text \<open>\<^verbatim>\<open>s.endswith(p)\<close>.\<close>

definition endswith :: "pystr \<Rightarrow> pystr \<Rightarrow> bool" where
  "endswith s p = suffix p s"

text \<open>Decimal text of a natural number, as an f-string prints a length.\<close>

definition digit_char :: "nat \<Rightarrow> nat" where
  "digit_char d = 48 + d"

function str_nat :: "nat \<Rightarrow> pystr" where
  "str_nat n = (if n < 10 then [digit_char n] else str_nat (n div 10) @ [digit_char (n mod 10)])"
  by pat_completeness auto
termination
  by (relation "measure (\<lambda>n. n)") auto

declare str_nat.simps [simp del]

text \<open>
  \<^verbatim>\<open>line.encode("utf-8")\<close> succeeds: every code point can be encoded but a
  surrogate. A file opened with \<^verbatim>\<open>encoding='utf-8'\<close> encodes what is written to it
  this way and raises \<^verbatim>\<open>UnicodeEncodeError\<close> otherwise.
\<close>

definition utf8_encodable :: "pystr \<Rightarrow> bool" where
  "utf8_encodable line =
     list_all (\<lambda>c. c < 55296 \<or> (57343 < c \<and> c \<le> 1114111)) line"

subsection \<open>The delimiter pattern\<close>

definition OPEN_TAG :: pystr where
  "OPEN_TAG = text_of ''<TO_GENERALIZE>''"

definition CLOSE_TAG :: pystr where
  "CLOSE_TAG = text_of ''</TO_GENERALIZE>''"

text \<open>
  \<^verbatim>\<open>re.search(r"<TO_GENERALIZE>(.*?)</TO_GENERALIZE>", line, re.DOTALL)\<close>: the
  leftmost match starts at the first opening tag and, the group being non-greedy and
  \<^verbatim>\<open>.\<close> matching every character, ends at the first closing tag after it; when no
  closing tag follows the first opening tag, none follows a later one either and there
  is no match. The result is the text before the match, group 1, and the text after
  the match.
\<close>

definition re_search :: "pystr \<Rightarrow> (pystr \<times> pystr \<times> pystr) option" where
  "re_search line =
     (case partition_at OPEN_TAG line of
        None \<Rightarrow> None
      | Some (pre, rest) \<Rightarrow>
          (case partition_at CLOSE_TAG rest of
             None \<Rightarrow> None
           | Some (body, post) \<Rightarrow> Some (pre, body, post)))"

lemma partition_at_decomp:
  "partition_at p s = Some (a, b) \<Longrightarrow> s = a @ p @ b"
proof (induction s arbitrary: a b)
  case Nil
  then show ?case by (simp split: if_splits)
next
  case (Cons c cs)
  show ?case
  proof (cases "prefix p (c # cs)")
    case True
    then obtain zs where zs: "c # cs = p @ zs" by (auto simp: prefix_def)
    from True Cons.prems have "a = []" "b = drop (length p) (c # cs)" by simp_all
    with zs show ?thesis by simp
  next
    case False
    with Cons.prems obtain a' where
      "partition_at p cs = Some (a', b)" "a = c # a'"
      by (auto split: option.splits)
    with Cons.IH show ?thesis by simp
  qed
qed

lemma re_search_decomp:
  "re_search line = Some (pre, body, post) \<Longrightarrow>
     line = pre @ OPEN_TAG @ body @ CLOSE_TAG @ post"
  by (auto simp: re_search_def split: option.splits dest!: partition_at_decomp)

lemma re_search_shorter:
  "re_search line = Some (pre, body, post) \<Longrightarrow> length post < length line"
  by (drule re_search_decomp) (simp add: OPEN_TAG_def text_of_def)

text \<open>
  \<^verbatim>\<open>re.sub(pattern, lambda m: safe_text, line, flags=re.DOTALL)\<close>: every
  non-overlapping match, found from left to right, is replaced by the text the function
  returns (taken literally); the search resumes right after each match.
\<close>

function re_sub :: "pystr \<Rightarrow> pystr \<Rightarrow> pystr" where
  "re_sub safe_text line =
     (case re_search line of
        None \<Rightarrow> line
      | Some (pre, body, post) \<Rightarrow> pre @ safe_text @ re_sub safe_text post)"
  by pat_completeness auto
termination
  by (relation "measure (\<lambda>(safe_text, line). length line)")
     (auto dest: re_search_shorter)

declare re_sub.simps [simp del]

subsection \<open>Batcher\<close>

definition BATCH_SIZE :: nat where
  "BATCH_SIZE = 50"

text \<open>\<^verbatim>\<open>range(i, stop, step)\<close> for a positive step, and the slice \<^verbatim>\<open>xs[i:j]\<close>.\<close>

function py_range :: "nat \<Rightarrow> nat \<Rightarrow> nat \<Rightarrow> nat list" where
  "py_range i stop step =
     (if step = 0 \<or> stop \<le> i then [] else i # py_range (i + step) stop step)"
  by pat_completeness auto
termination
  by (relation "measure (\<lambda>(i, stop, step). stop - i)") auto

declare py_range.simps [simp del]

definition py_slice :: "'a list \<Rightarrow> nat \<Rightarrow> nat \<Rightarrow> 'a list" where
  "py_slice xs i j = take (j - i) (drop i xs)"

text \<open>
  \<^verbatim>\<open>[dirty_texts[i:i + B] for i in range(0, total_dirty, B)]\<close>; \<^verbatim>\<open>range\<close> raises
  \<^verbatim>\<open>ValueError\<close> for a zero step.
\<close>

definition batcher :: "nat \<Rightarrow> 'a list \<Rightarrow> py_error + 'a list list" where
  "batcher B dirty_texts =
     (if B = 0 then Inl ValueError
      else Inr (map (\<lambda>i. py_slice dirty_texts i (i + B))
                    (py_range 0 (length dirty_texts) B)))"

subsection \<open>Span extractor\<close>

text \<open>
  The scan of \<^verbatim>\<open>process_dataset\<close>: \<^verbatim>\<open>for i, line in enumerate(lines)\<close>, appending
  the line number and group 1 of the match to \<^verbatim>\<open>dirty_indices\<close> and
  \<^verbatim>\<open>dirty_texts\<close>.
\<close>

fun scan_lines ::
  "(nat \<times> pystr) list \<Rightarrow> nat list \<times> pystr list \<Rightarrow> nat list \<times> pystr list" where
  "scan_lines [] acc = acc"
| "scan_lines ((i, line) # rest) (dirty_indices, dirty_texts) =
     (if contains OPEN_TAG line then
        (case re_search line of
           Some (pre, body, post) \<Rightarrow>
             scan_lines rest (dirty_indices @ [i], dirty_texts @ [body])
         | None \<Rightarrow> scan_lines rest (dirty_indices, dirty_texts))
      else scan_lines rest (dirty_indices, dirty_texts))"

definition extract_spans :: "pystr list \<Rightarrow> nat list \<times> pystr list" where
  "extract_spans lines = scan_lines (enumerate 0 lines) ([], [])"

subsection \<open>Rewrite client and retry controller\<close>

definition clean_json_text :: "pystr \<Rightarrow> pystr" where
  "clean_json_text text =
     (let t0 = strip text;
          t1 = (if prefix (text_of ''```json'') t0 then drop 7 t0 else t0);
          t2 = (if prefix (text_of ''```'') t1 then drop 3 t1 else t1);
          t3 = (if endswith t2 (text_of ''```'') then take (length t2 - 3) t2 else t2)
      in strip t3)"

text \<open>
  One call of the generation service, as the client sees it: either
  \<^verbatim>\<open>generate_content\<close> (or reading \<^verbatim>\<open>response.text\<close>) raises an exception with a
  message, or the response text arrives.
\<close>

datatype response = Raises pystr | Text pystr

text \<open>The test \<^verbatim>\<open>"429" in error_str or "quota" in error_str.lower()\<close>.\<close>

definition rate_limited :: "pystr \<Rightarrow> bool" where
  "rate_limited error_str =
     (contains (text_of ''429'') error_str \<or> contains (text_of ''quota'') (lower error_str))"

text \<open>
  \<^verbatim>\<open>while len(results) < len(originals): results.append(originals[len(results)])\<close>,
  the padding loop of the client and, with \<^verbatim>\<open>total_dirty = len(dirty_texts)\<close>, of
  the driver. The index read is always in range.
\<close>

function pad_with_originals :: "pystr list \<Rightarrow> pyval list \<Rightarrow> pyval list" where
  "pad_with_originals originals results =
     (if length results < length originals
      then pad_with_originals originals (results @ [PStr (originals ! length results)])
      else results)"
  by pat_completeness auto
termination
  by (relation "measure (\<lambda>(originals, results). length originals - length results)") auto

declare pad_with_originals.simps [simp del]

text \<open>
  The body of the \<^verbatim>\<open>try\<close> block for one response: \<open>Inl\<close> carries \<^verbatim>\<open>str(e)\<close> of
  the exception raised, \<open>Inr\<close> the list returned. \<open>json_loads\<close> stands for
  \<^verbatim>\<open>json.loads\<close>, with \<open>Inl\<close> the message of its \<^verbatim>\<open>JSONDecodeError\<close>. The
  acceptance test \<^verbatim>\<open>len(batch_results) >= len(batch) * 0.9\<close> compares an integer
  \<open>m\<close> with the double nearest to \<open>K * 0.9\<close>, and Python compares the two exactly.
  That double is \<open>9 * K / 10\<close> itself when this is an integer, and otherwise lies
  within \<open>K * 2^-52\<close> of it, on the same side of every integer for every list length
  below \<open>2^48\<close>; so the test is \<open>9 * K \<le> 10 * m\<close>.
\<close>

definition attempt ::
  "(pystr \<Rightarrow> pystr + pyval) \<Rightarrow> pystr list \<Rightarrow> response \<Rightarrow> pystr + pyval list" where
  "attempt json_loads batch resp =
     (case resp of
        Raises error_str \<Rightarrow> Inl error_str
      | Text text \<Rightarrow>
          (case json_loads (clean_json_text text) of
             Inl error_str \<Rightarrow> Inl error_str
           | Inr (PList batch_results) \<Rightarrow>
               if 9 * length batch \<le> 10 * length batch_results then
                 Inr (if length batch < length batch_results
                      then take (length batch) batch_results
                      else pad_with_originals batch batch_results)
               else Inl (text_of ''Too few items: '' @ str_nat (length batch_results)
                           @ (text_of ''/'') @ str_nat (length batch))
           | Inr _ \<Rightarrow> Inl (text_of ''Output is not a list'')))"

definition max_retries :: nat where
  "max_retries = 2"

text \<open>
  The \<^verbatim>\<open>while retries < max_retries\<close> loop. \<open>svc n\<close> is what the service does on
  the \<open>n\<close>-th call made for this batch, \<open>calls\<close> counts the calls made so far. A
  rate-limit error leaves \<open>retries\<close> as it was (\<^verbatim>\<open>retries += 1\<close> then
  \<^verbatim>\<open>retries -= 1; continue\<close>), any other error adds one. The result is the number of
  calls made and the list returned; \<open>None\<close> means the loop never ends. The pauses
  (\<^verbatim>\<open>time.sleep\<close>) and the prints are not modelled.
\<close>

partial_function (option) retry_loop ::
  "(pystr \<Rightarrow> pystr + pyval) \<Rightarrow> (nat \<Rightarrow> response) \<Rightarrow> pystr list \<Rightarrow> nat \<Rightarrow> nat
     \<Rightarrow> (nat \<times> pyval list) option" where
  "retry_loop json_loads svc batch retries calls =
     (if retries < max_retries then
        (case attempt json_loads batch (svc calls) of
           Inr batch_results \<Rightarrow> Some (Suc calls, batch_results)
         | Inl error_str \<Rightarrow>
             if rate_limited error_str
             then retry_loop json_loads svc batch retries (Suc calls)
             else retry_loop json_loads svc batch (Suc retries) (Suc calls))
      else Some (calls, map PStr batch))"

declare retry_loop.simps [code]

definition process_batch_with_retry ::
  "(pystr \<Rightarrow> pystr + pyval) \<Rightarrow> (nat \<Rightarrow> response) \<Rightarrow> pystr list
     \<Rightarrow> (nat \<times> pyval list) option" where
  "process_batch_with_retry json_loads svc batch = retry_loop json_loads svc batch 0 0"

text \<open>
  How the \<^verbatim>\<open>except\<close> branch sorts what one call of the service led to: the list was
  returned, the error text is a rate limit, or it is any other error.
\<close>

datatype outcome = Succeeded | RateLimited | Failed

definition classify ::
  "(pystr \<Rightarrow> pystr + pyval) \<Rightarrow> pystr list \<Rightarrow> response \<Rightarrow> outcome" where
  "classify json_loads batch resp =
     (case attempt json_loads batch resp of
        Inr batch_results \<Rightarrow> Succeeded
      | Inl error_str \<Rightarrow> if rate_limited error_str then RateLimited else Failed)"

subsection \<open>Checkpoint store and batch loop\<close>

text \<open>
  The checkpoint file. The driver turns \<^verbatim>\<open>completed_batches\<close> into a set as soon
  as it is loaded and writes \<^verbatim>\<open>list(set)\<close> back, so the order of that list is never
  observed and the model keeps the set.
\<close>

record checkpoint =
  completed_batches :: "nat set"
  cleaned_texts :: "pyval list"

definition load_checkpoint :: "checkpoint option \<Rightarrow> checkpoint" where
  "load_checkpoint checkpoint_file =
     (case checkpoint_file of
        Some c \<Rightarrow> c
      | None \<Rightarrow> \<lparr>completed_batches = {}, cleaned_texts = []\<rparr>)"

text \<open>
  What a run leaves behind besides its files: \<open>Processed i n\<close> records that
  \<^verbatim>\<open>process_batch_with_retry\<close> was run on batch \<open>i\<close> and called the service \<open>n\<close>
  times; the others are the messages of the driver that the properties below refer to.
\<close>

datatype event =
    NotFound
  | Processed nat nat
  | LossReport nat nat
  | LossWarning
  | LossAcceptable

record loop_state =
  completed :: "nat set"
  cleaned :: "pyval list"
  saved :: "checkpoint option"
  trace :: "event list"

text \<open>
  \<^verbatim>\<open>for batch_idx, batch in enumerate(batches)\<close>: a completed batch is skipped;
  otherwise its result is appended to \<^verbatim>\<open>cleaned_texts\<close>, its index is added to the
  completed set and the checkpoint is saved. \<open>service i\<close> is the behaviour of the
  generation service during the calls made for batch \<open>i\<close>.
\<close>

fun run_batches ::
  "(pystr \<Rightarrow> pystr + pyval) \<Rightarrow> (nat \<Rightarrow> nat \<Rightarrow> response) \<Rightarrow> (nat \<times> pystr list) list
     \<Rightarrow> loop_state \<Rightarrow> loop_state option" where
  "run_batches json_loads service [] st = Some st"
| "run_batches json_loads service ((batch_idx, batch) # rest) st =
     (if batch_idx \<in> completed st then run_batches json_loads service rest st
      else
        (case process_batch_with_retry json_loads (service batch_idx) batch of
           None \<Rightarrow> None
         | Some (calls, batch_results) \<Rightarrow>
             run_batches json_loads service rest
               \<lparr>completed = insert batch_idx (completed st),
                cleaned = cleaned st @ batch_results,
                saved = Some \<lparr>completed_batches = insert batch_idx (completed st),
                              cleaned_texts = cleaned st @ batch_results\<rparr>,
                trace = trace st @ [Processed batch_idx calls]\<rparr>))"

text \<open>
  The state the loop starts from: \<^verbatim>\<open>checkpoint = load_checkpoint()\<close>, the completed
  set and \<^verbatim>\<open>cleaned_texts\<close> taken from it; the checkpoint file is as it was found.
\<close>

definition initial_state :: "checkpoint option \<Rightarrow> loop_state" where
  "initial_state ckpt_file =
     (let checkpoint = load_checkpoint ckpt_file
      in \<lparr>completed = completed_batches checkpoint,
          cleaned = cleaned_texts checkpoint,
          saved = ckpt_file, trace = []\<rparr>)"

subsection \<open>Reassembler\<close>

text \<open>\<^verbatim>\<open>isinstance(safe_text, str)\<close>.\<close>

definition is_str :: "pyval \<Rightarrow> bool" where
  "is_str v = (case v of PStr s \<Rightarrow> True | _ \<Rightarrow> False)"

text \<open>
  The "ensure safe_text is a string" step; \<open>py_str\<close> stands for Python's \<^verbatim>\<open>str\<close>.
\<close>

fun join :: "pystr \<Rightarrow> pystr list \<Rightarrow> pystr" where
  "join sep [] = []"
| "join sep [x] = x"
| "join sep (x # y # ys) = x @ sep @ join sep (y # ys)"

definition to_text :: "(pyval \<Rightarrow> pystr) \<Rightarrow> pyval \<Rightarrow> pystr" where
  "to_text py_str safe_text =
     (case safe_text of
        PStr s \<Rightarrow> s
      | PList xs \<Rightarrow> join (text_of '' '') (map py_str xs)
      | _ \<Rightarrow> py_str safe_text)"

text \<open>
  \<^verbatim>\<open>for i, line_idx in enumerate(dirty_indices)\<close>: the line is read, the tag replaced
  and the line stored back. Reading \<^verbatim>\<open>lines[line_idx]\<close> or \<^verbatim>\<open>cleaned_texts[i]\<close>
  out of range raises \<^verbatim>\<open>IndexError\<close>.
\<close>

fun rebuild ::
  "(pyval \<Rightarrow> pystr) \<Rightarrow> (nat \<times> nat) list \<Rightarrow> pyval list \<Rightarrow> pystr list
     \<Rightarrow> py_error + pystr list" where
  "rebuild py_str [] texts lines = Inr lines"
| "rebuild py_str ((i, line_idx) # rest) texts lines =
     (if length lines \<le> line_idx then Inl IndexError
      else if length texts \<le> i then Inl IndexError
      else rebuild py_str rest texts
             (lines[line_idx := re_sub (to_text py_str (texts ! i)) (lines ! line_idx)]))"

definition reassemble ::
  "(pyval \<Rightarrow> pystr) \<Rightarrow> pystr list \<Rightarrow> nat list \<Rightarrow> pyval list \<Rightarrow> py_error + pystr list" where
  "reassemble py_str lines dirty_indices texts =
     rebuild py_str (enumerate 0 dirty_indices) texts lines"

subsection \<open>The driver\<close>

text \<open>
  The test \<^verbatim>\<open>loss_percentage > 5\<close> with
  \<^verbatim>\<open>loss_percentage = (1 - len(cleaned_texts) / total_dirty) * 100\<close>, computed in
  doubles for \<open>n\<close> accumulated texts and \<open>total_dirty > 0\<close> spans. With \<open>q\<close> the double
  nearest to \<open>n / total_dirty\<close>: for \<open>q < 1/2\<close> the percentage is at least 50 and for
  \<open>q \<ge> 1\<close> it is at most 0; in between \<open>q = k / 2^53\<close> for an integer \<open>k\<close>,
  \<open>1 - q\<close> is computed exactly, and its product with 100 rounds to a double above 5
  exactly when it exceeds \<open>5 + 2^-51\<close>, that is when \<open>k \<le> 8556839292003942\<close>. The
  quotient rounds to such a \<open>q\<close> exactly when
  \<open>n / total_dirty \<le> (2 * 8556839292003942 + 1) / 2^54\<close>, the tie going to the even
  \<open>k\<close>. So the warning is printed for 19 texts of 20, a loss of exactly 5%, where the
  computed percentage is 5.000000000000004.
\<close>

definition loss_over_5 :: "nat \<Rightarrow> nat \<Rightarrow> bool" where
  "loss_over_5 n total_dirty = (n * 2 ^ 54 \<le> 17113678584007885 * total_dirty)"

text \<open>
  \<^verbatim>\<open>f.writelines(lines)\<close> on the output file, opened for writing with
  \<^verbatim>\<open>encoding='utf-8'\<close>: the lines are written one by one, and a line that cannot be
  encoded raises \<^verbatim>\<open>UnicodeEncodeError\<close>; the file then holds the lines before it. The
  result is the content of the file and the exception raised, if any. An error of the
  operating system on opening or writing the file (no permission, no space) is outside
  the model.
\<close>

definition writelines :: "pystr list \<Rightarrow> pystr list \<times> py_error option" where
  "writelines lines =
     (takeWhile utf8_encodable lines,
      if list_all utf8_encodable lines then None else Some UnicodeEncodeError)"

text \<open>
  What a run leaves: the output file (\<open>None\<close> when the run did not open it), the
  checkpoint file, what it printed, and the exception that ended it, if any.
\<close>

record run_result =
  output_file :: "pystr list option"
  checkpoint_file :: "checkpoint option"
  printed :: "event list"
  raised :: "py_error option"

text \<open>
  \<^verbatim>\<open>process_dataset\<close>. The input file is \<open>None\<close> when it does not exist, and so is
  the checkpoint file; an input file that exists is given by its lines as read.
  \<open>None\<close> as the result means the run never ends. The checkpoint is removed only when
  the output file has been written.
\<close>

definition process_dataset ::
  "(pystr \<Rightarrow> pystr + pyval) \<Rightarrow> (pyval \<Rightarrow> pystr) \<Rightarrow> (nat \<Rightarrow> nat \<Rightarrow> response)
     \<Rightarrow> pystr list option \<Rightarrow> checkpoint option \<Rightarrow> run_result option" where
  "process_dataset json_loads py_str service input_file ckpt_file =
     (case input_file of
        None \<Rightarrow>
          Some \<lparr>output_file = None, checkpoint_file = ckpt_file, printed = [NotFound],
                raised = None\<rparr>
      | Some lines \<Rightarrow>
          (let (dirty_indices, dirty_texts) = extract_spans lines;
               total_dirty = length dirty_indices
           in case batcher BATCH_SIZE dirty_texts of
                Inl e \<Rightarrow>
                  Some \<lparr>output_file = None, checkpoint_file = ckpt_file, printed = [],
                        raised = Some e\<rparr>
              | Inr batches \<Rightarrow>
                  (case run_batches json_loads service (enumerate 0 batches)
                          (initial_state ckpt_file) of
                     None \<Rightarrow> None
                   | Some st \<Rightarrow>
                       (let n = length (cleaned st);
                            report =
                              (if n \<noteq> total_dirty then
                                 [LossReport n total_dirty,
                                  if 0 < total_dirty \<and> loss_over_5 n total_dirty
                                  then LossWarning else LossAcceptable]
                               else []);
                            padded =
                              (if n \<noteq> total_dirty
                               then pad_with_originals dirty_texts (cleaned st)
                               else cleaned st)
                        in case reassemble py_str lines dirty_indices padded of
                             Inl e \<Rightarrow>
                               Some \<lparr>output_file = None, checkpoint_file = saved st,
                                     printed = trace st @ report, raised = Some e\<rparr>
                           | Inr new_lines \<Rightarrow>
                               (case writelines new_lines of
                                  (written, None) \<Rightarrow>
                                    Some \<lparr>output_file = Some written,
                                          checkpoint_file = None,
                                          printed = trace st @ report, raised = None\<rparr>
                                | (written, Some e) \<Rightarrow>
                                    Some \<lparr>output_file = Some written,
                                          checkpoint_file = saved st,
                                          printed = trace st @ report,
                                          raised = Some e\<rparr>)))))"

section \<open>Properties\<close>

subsection \<open>Batcher\<close>

lemma py_range_Nil_iff: "py_range i stop step = [] \<longleftrightarrow> (step = 0 \<or> stop \<le> i)"
  by (subst py_range.simps) simp

lemma concat_slices:
  "0 < B \<Longrightarrow>
     concat (map (\<lambda>i. py_slice xs i (i + B)) (py_range i (length xs) B)) = drop i xs"
proof (induction i "length xs" B rule: py_range.induct)
  case (1 i step)
  show ?case
  proof (cases "length xs \<le> i")
    case True
    then show ?thesis by (subst py_range.simps) simp
  next
    case False
    with "1.prems" have IH:
      "concat (map (\<lambda>i. py_slice xs i (i + step)) (py_range (i + step) (length xs) step))
         = drop (i + step) xs"
      using "1.hyps" by simp
    have "take step (drop i xs) @ drop (i + step) xs = drop i xs"
      by (metis add.commute append_take_drop_id drop_drop)
    with False "1.prems" IH show ?thesis
      by (subst py_range.simps) (simp add: py_slice_def)
  qed
qed

lemma slices_full:
  "0 < B \<Longrightarrow> Suc k < length (py_range i (length xs) B) \<Longrightarrow>
     length (map (\<lambda>i. py_slice xs i (i + B)) (py_range i (length xs) B) ! k) = B"
proof (induction i "length xs" B arbitrary: k rule: py_range.induct)
  case (1 i step)
  from "1.prems"(2) have ne: "py_range i (length xs) step \<noteq> []" by auto
  then have open_i: "\<not> (step = 0 \<or> length xs \<le> i)" by (simp add: py_range_Nil_iff)
  have unfold: "py_range i (length xs) step = i # py_range (i + step) (length xs) step"
    using open_i by (subst py_range.simps) simp
  show ?case
  proof (cases k)
    case 0
    with "1.prems"(2) unfold have "py_range (i + step) (length xs) step \<noteq> []" by auto
    then have "i + step < length xs" by (simp add: py_range_Nil_iff)
    with 0 unfold show ?thesis by (simp add: py_slice_def)
  next
    case (Suc k')
    with "1.prems"(2) unfold have "Suc k' < length (py_range (i + step) (length xs) step)"
      by simp
    with "1.hyps" open_i "1.prems"(1) Suc unfold show ?thesis by simp
  qed
qed

lemma slices_last:
  "0 < B \<Longrightarrow> py_range i (length xs) B \<noteq> [] \<Longrightarrow>
     length (last (map (\<lambda>i. py_slice xs i (i + B)) (py_range i (length xs) B)))
       = (if (length xs - i) mod B = 0 then B else (length xs - i) mod B)"
proof (induction i "length xs" B rule: py_range.induct)
  case (1 i step)
  from "1.prems"(2) have open_i: "\<not> (step = 0 \<or> length xs \<le> i)"
    by (simp add: py_range_Nil_iff)
  have unfold: "py_range i (length xs) step = i # py_range (i + step) (length xs) step"
    using open_i by (subst py_range.simps) simp
  show ?case
  proof (cases "i + step < length xs")
    case True
    then have ne: "py_range (i + step) (length xs) step \<noteq> []"
      using "1.prems"(1) by (simp add: py_range_Nil_iff)
    have "(length xs - i) mod step = (length xs - (i + step)) mod step"
      using True by (simp add: le_mod_geq)
    with "1.hyps" [OF open_i "1.prems"(1) ne] ne unfold show ?thesis by simp
  next
    case False
    then have "py_range (i + step) (length xs) step = []" by (simp add: py_range_Nil_iff)
    moreover have "length xs - i = step \<or> length xs - i < step"
      using False by arith
    ultimately show ?thesis
      using unfold open_i by (auto simp: py_slice_def)
  qed
qed

text \<open>
  C8: for every text sequence \<open>T\<close> and batch size \<open>B \<ge> 1\<close> the batcher returns batches
  whose concatenation, in order, is \<open>T\<close>; every batch but the last has exactly \<open>B\<close>
  items, and the last has \<open>length T mod B\<close> items, or \<open>B\<close> when \<open>B\<close> divides the
  total.
\<close>

theorem batcher_partitions:
  assumes "1 \<le> B"
  shows "\<exists>batches. batcher B T = Inr batches \<and> concat batches = T \<and>
           (\<forall>k. Suc k < length batches \<longrightarrow> length (batches ! k) = B) \<and>
           (batches \<noteq> [] \<longrightarrow>
              length (last batches) = (if length T mod B = 0 then B else length T mod B))"
proof -
  let ?bs = "map (\<lambda>i. py_slice T i (i + B)) (py_range 0 (length T) B)"
  from assms have pos: "0 < B" by simp
  then have "batcher B T = Inr ?bs" by (simp add: batcher_def)
  moreover have "concat ?bs = T"
    using concat_slices [OF pos, of T 0] by simp
  moreover have "\<forall>k. Suc k < length ?bs \<longrightarrow> length (?bs ! k) = B"
    using slices_full [OF pos, of _ 0 T] by simp
  moreover have "?bs \<noteq> [] \<longrightarrow>
      length (last ?bs) = (if length T mod B = 0 then B else length T mod B)"
    using slices_last [OF pos, of 0 T] by simp
  ultimately show ?thesis by blast
qed

theorem batcher_partitions_witness:
  "(1::nat) \<le> 2 \<and>
   batcher 2 [''a'', ''b'', ''c'', ''d'', ''e''] = Inr [[''a'', ''b''], [''c'', ''d''], [''e'']] \<and>
   concat [[''a'', ''b''], [''c'', ''d''], [''e'']] = [''a'', ''b'', ''c'', ''d'', ''e''] \<and>
   length (last [[''a'', ''b''], [''c'', ''d''], [''e'']])
     = length [''a'', ''b'', ''c'', ''d'', ''e''] mod 2"
  using batcher_partitions [of 2 "[''a'', ''b'', ''c'', ''d'', ''e'']"]
  by (simp add: batcher_def py_range.simps py_slice_def)

subsection \<open>Rewrite client and retry controller\<close>


lemma pad_with_originals_eq:
  "length results \<le> length originals \<Longrightarrow>
     pad_with_originals originals results
       = results @ map PStr (drop (length results) originals)"
proof (induction originals results rule: pad_with_originals.induct)
  case (1 originals results)
  show ?case
  proof (cases "length results < length originals")
    case True
    then have "drop (length results) originals
        = originals ! length results # drop (Suc (length results)) originals"
      by (simp add: Cons_nth_drop_Suc)
    with True "1.IH" show ?thesis
      by (subst pad_with_originals.simps) simp
  next
    case False
    with "1.prems" show ?thesis
      by (subst pad_with_originals.simps) simp
  qed
qed

lemma pad_with_originals_long:
  "length originals \<le> length results \<Longrightarrow> pad_with_originals originals results = results"
  by (subst pad_with_originals.simps) simp

lemma attempt_length:
  "attempt json_loads batch resp = Inr rs \<Longrightarrow> length rs = length batch"
  by (auto simp: attempt_def pad_with_originals_eq text_of_def
           split: response.splits sum.splits pyval.splits if_splits)

lemma retry_loop_length:
  assumes "retry_loop json_loads svc batch retries calls = Some y"
  shows "length (snd y) = length batch"
proof (rule retry_loop.raw_induct
    [where P = "\<lambda>json_loads svc batch retries calls y. length (snd y) = length batch",
     OF _ assms])
  fix loop :: "(pystr \<Rightarrow> pystr + pyval) \<Rightarrow> (nat \<Rightarrow> response) \<Rightarrow> pystr list \<Rightarrow> nat \<Rightarrow> nat
     \<Rightarrow> (nat \<times> pyval list) option"
  fix json_loads svc batch retries calls y
  assume IH: "\<And>json_loads svc batch retries calls y.
      loop json_loads svc batch retries calls = Some y \<Longrightarrow> length (snd y) = length batch"
  assume step: "(if retries < max_retries then
        (case attempt json_loads batch (svc calls) of
           Inl error_str \<Rightarrow>
             if rate_limited error_str
             then loop json_loads svc batch retries (Suc calls)
             else loop json_loads svc batch (Suc retries) (Suc calls)
         | Inr batch_results \<Rightarrow> Some (Suc calls, batch_results))
      else Some (calls, map PStr batch)) = Some y"
  show "length (snd y) = length batch"
  proof (cases "retries < max_retries")
    case False
    with step show ?thesis by auto
  next
    case True
    show ?thesis
    proof (cases "attempt json_loads batch (svc calls)")
      case (Inr rs)
      with True step attempt_length [OF Inr] show ?thesis by auto
    next
      case (Inl msg)
      with True step show ?thesis by (auto split: if_splits dest: IH)
    qed
  qed
qed

lemma retry_loop_exhausted:
  "max_retries \<le> retries \<Longrightarrow>
     retry_loop json_loads svc batch retries calls = Some (calls, map PStr batch)"
  by (subst retry_loop.simps) simp

lemma retry_loop_step:
  "retries < max_retries \<Longrightarrow>
   retry_loop json_loads svc batch retries calls =
     (case attempt json_loads batch (svc calls) of
        Inr batch_results \<Rightarrow> Some (Suc calls, batch_results)
      | Inl error_str \<Rightarrow>
          if rate_limited error_str
          then retry_loop json_loads svc batch retries (Suc calls)
          else retry_loop json_loads svc batch (Suc retries) (Suc calls))"
  by (subst retry_loop.simps) simp

lemma returns_on_success:
  assumes "classify json_loads batch (svc N) = Succeeded"
  shows "calls \<le> N \<Longrightarrow> \<exists>y. retry_loop json_loads svc batch retries calls = Some y"
proof (induction "N - calls" arbitrary: calls retries)
  case 0
  then have eq: "calls = N" by simp
  show ?case
  proof (cases "retries < max_retries")
    case True
    note unfold = retry_loop_step [OF True, of json_loads svc batch calls]
    from assms eq have "classify json_loads batch (svc calls) = Succeeded" by simp
    then show ?thesis
      by (simp add: unfold classify_def split: sum.splits if_splits)
  next
    case False
    then show ?thesis by (simp add: retry_loop_exhausted)
  qed
next
  case (Suc d)
  then have next_ok: "\<And>r. \<exists>y. retry_loop json_loads svc batch r (Suc calls) = Some y"
    by simp
  show ?case
  proof (cases "retries < max_retries")
    case True
    note unfold = retry_loop_step [OF True, of json_loads svc batch calls]
    from next_ok show ?thesis
      by (simp add: unfold split: sum.splits)
  next
    case False
    then show ?thesis by (simp add: retry_loop_exhausted)
  qed
qed

lemma returns_on_last_failure:
  assumes "classify json_loads batch (svc N) = Failed"
  shows "calls \<le> N \<Longrightarrow> max_retries \<le> Suc retries \<Longrightarrow>
           \<exists>y. retry_loop json_loads svc batch retries calls = Some y"
proof (induction "N - calls" arbitrary: calls)
  case 0
  then have eq: "calls = N" by simp
  show ?case
  proof (cases "retries < max_retries")
    case True
    note unfold = retry_loop_step [OF True, of json_loads svc batch calls]
    from assms eq have "classify json_loads batch (svc calls) = Failed" by simp
    with "0.prems"(2) show ?thesis
      by (simp add: unfold retry_loop_exhausted classify_def split: sum.splits if_splits)
  next
    case False
    then show ?thesis by (simp add: retry_loop_exhausted)
  qed
next
  case (Suc d)
  then have next_ok: "\<exists>y. retry_loop json_loads svc batch retries (Suc calls) = Some y"
    by simp
  show ?case
  proof (cases "retries < max_retries")
    case True
    note unfold = retry_loop_step [OF True, of json_loads svc batch calls]
    from next_ok Suc.prems show ?thesis
      by (simp add: unfold retry_loop_exhausted split: sum.splits)
  next
    case False
    then show ?thesis by (simp add: retry_loop_exhausted)
  qed
qed

lemma returns_on_two_failures:
  assumes "classify json_loads batch (svc N1) = Failed"
    and "classify json_loads batch (svc N2) = Failed" and "N1 < N2"
  shows "calls \<le> N1 \<Longrightarrow> \<exists>y. retry_loop json_loads svc batch retries calls = Some y"
proof (induction "N1 - calls" arbitrary: calls)
  case 0
  then have eq: "calls = N1" by simp
  show ?case
  proof (cases "retries < max_retries")
    case True
    note unfold = retry_loop_step [OF True, of json_loads svc batch calls]
    from assms(3) eq have "Suc calls \<le> N2" by simp
    from returns_on_last_failure
           [where svc = svc and N = N2 and retries = "Suc retries", OF assms(2) this] True
    have "\<exists>y. retry_loop json_loads svc batch (Suc retries) (Suc calls) = Some y"
      by (simp add: max_retries_def)
    moreover from assms(1) eq have "classify json_loads batch (svc calls) = Failed" by simp
    ultimately show ?thesis
      by (simp add: unfold classify_def split: sum.splits if_splits)
  next
    case False
    then show ?thesis by (simp add: retry_loop_exhausted)
  qed
next
  case (Suc d)
  then have next_ok: "\<exists>y. retry_loop json_loads svc batch retries (Suc calls) = Some y"
    by simp
  show ?case
  proof (cases "retries < max_retries")
    case True
    note unfold = retry_loop_step [OF True, of json_loads svc batch calls]
    from assms(3) Suc.prems have "Suc calls \<le> N2" by simp
    from returns_on_last_failure
           [where svc = svc and N = N2 and retries = "Suc retries", OF assms(2) this] True
    have "\<exists>y. retry_loop json_loads svc batch (Suc retries) (Suc calls) = Some y"
      by (simp add: max_retries_def)
    with next_ok show ?thesis
      by (simp add: unfold split: sum.splits)
  next
    case False
    then show ?thesis by (simp add: retry_loop_exhausted)
  qed
qed

lemma returns_only_if:
  assumes "retry_loop json_loads svc batch retries calls = Some y"
  shows "retries < max_retries \<longrightarrow>
           (\<exists>n\<ge>calls. classify json_loads batch (svc n) = Succeeded) \<or>
           (\<exists>n\<ge>calls. classify json_loads batch (svc n) = Failed \<and>
              (retries = 0 \<longrightarrow> (\<exists>n'>n. classify json_loads batch (svc n') = Failed)))"
proof (rule retry_loop.raw_induct
    [where P = "\<lambda>json_loads svc batch retries calls y. retries < max_retries \<longrightarrow>
           (\<exists>n\<ge>calls. classify json_loads batch (svc n) = Succeeded) \<or>
           (\<exists>n\<ge>calls. classify json_loads batch (svc n) = Failed \<and>
              (retries = 0 \<longrightarrow> (\<exists>n'>n. classify json_loads batch (svc n') = Failed)))",
     OF _ assms])
  fix loop :: "(pystr \<Rightarrow> pystr + pyval) \<Rightarrow> (nat \<Rightarrow> response) \<Rightarrow> pystr list \<Rightarrow> nat \<Rightarrow> nat
     \<Rightarrow> (nat \<times> pyval list) option"
  fix json_loads svc batch retries calls y
  let ?S = "\<lambda>n::nat. classify json_loads batch (svc n) = Succeeded"
  let ?F = "\<lambda>n::nat. classify json_loads batch (svc n) = Failed"
  assume IH: "\<And>json_loads svc batch retries calls y.
      loop json_loads svc batch retries calls = Some y \<Longrightarrow> retries < max_retries \<longrightarrow>
           (\<exists>n\<ge>calls. classify json_loads batch (svc n) = Succeeded) \<or>
           (\<exists>n\<ge>calls. classify json_loads batch (svc n) = Failed \<and>
              (retries = 0 \<longrightarrow> (\<exists>n'>n. classify json_loads batch (svc n') = Failed)))"
  assume step: "(if retries < max_retries then
        (case attempt json_loads batch (svc calls) of
           Inl error_str \<Rightarrow>
             if rate_limited error_str
             then loop json_loads svc batch retries (Suc calls)
             else loop json_loads svc batch (Suc retries) (Suc calls)
         | Inr batch_results \<Rightarrow> Some (Suc calls, batch_results))
      else Some (calls, map PStr batch)) = Some y"
  show "retries < max_retries \<longrightarrow> (\<exists>n\<ge>calls. ?S n) \<or>
           (\<exists>n\<ge>calls. ?F n \<and> (retries = 0 \<longrightarrow> (\<exists>n'>n. ?F n')))"
  proof
    assume lt: "retries < max_retries"
    show "(\<exists>n\<ge>calls. ?S n) \<or> (\<exists>n\<ge>calls. ?F n \<and> (retries = 0 \<longrightarrow> (\<exists>n'>n. ?F n')))"
    proof (cases "attempt json_loads batch (svc calls)")
      case (Inr rs)
      then have "?S calls" by (simp add: classify_def)
      then show ?thesis by blast
    next
      case (Inl msg)
      show ?thesis
      proof (cases "rate_limited msg")
        case True
        with Inl lt step have "loop json_loads svc batch retries (Suc calls) = Some y" by simp
        from IH [OF this] lt
        have "(\<exists>n\<ge>Suc calls. ?S n) \<or>
              (\<exists>n\<ge>Suc calls. ?F n \<and> (retries = 0 \<longrightarrow> (\<exists>n'>n. ?F n')))" by blast
        then show ?thesis by (meson Suc_leD)
      next
        case False
        with Inl have here: "?F calls" by (simp add: classify_def)
        from False Inl lt step
        have run: "loop json_loads svc batch (Suc retries) (Suc calls) = Some y" by simp
        show ?thesis
        proof (cases "retries = 0")
          case False
          with here show ?thesis by blast
        next
          case True
          then have "Suc retries < max_retries" by (simp add: max_retries_def)
          with IH [OF run]
          have "(\<exists>n\<ge>Suc calls. ?S n) \<or> (\<exists>n\<ge>Suc calls. ?F n)" by blast
          then show ?thesis
          proof
            assume "\<exists>n\<ge>Suc calls. ?S n"
            then show ?thesis by (meson Suc_leD)
          next
            assume "\<exists>n\<ge>Suc calls. ?F n"
            then obtain n where "n > calls" "?F n" by (auto simp: Suc_le_eq)
            with here show ?thesis by blast
          qed
        qed
      qed
    qed
  qed
qed

lemma retry_loop_outcome:
  assumes "retry_loop json_loads svc batch retries calls = Some y"
  shows "snd y = map PStr batch \<or> (\<exists>n. attempt json_loads batch (svc n) = Inr (snd y))"
proof (rule retry_loop.raw_induct
    [where P = "\<lambda>json_loads svc batch retries calls y.
        snd y = map PStr batch \<or> (\<exists>n. attempt json_loads batch (svc n) = Inr (snd y))",
     OF _ assms])
  fix loop :: "(pystr \<Rightarrow> pystr + pyval) \<Rightarrow> (nat \<Rightarrow> response) \<Rightarrow> pystr list \<Rightarrow> nat \<Rightarrow> nat
     \<Rightarrow> (nat \<times> pyval list) option"
  fix json_loads svc batch retries calls y
  assume IH: "\<And>json_loads svc batch retries calls y.
      loop json_loads svc batch retries calls = Some y \<Longrightarrow>
        snd y = map PStr batch \<or> (\<exists>n. attempt json_loads batch (svc n) = Inr (snd y))"
  assume step: "(if retries < max_retries then
        (case attempt json_loads batch (svc calls) of
           Inl error_str \<Rightarrow>
             if rate_limited error_str
             then loop json_loads svc batch retries (Suc calls)
             else loop json_loads svc batch (Suc retries) (Suc calls)
         | Inr batch_results \<Rightarrow> Some (Suc calls, batch_results))
      else Some (calls, map PStr batch)) = Some y"
  show "snd y = map PStr batch \<or> (\<exists>n. attempt json_loads batch (svc n) = Inr (snd y))"
  proof (cases "retries < max_retries")
    case False
    with step show ?thesis by auto
  next
    case True
    show ?thesis
    proof (cases "attempt json_loads batch (svc calls)")
      case (Inr rs)
      with True step have "snd y = rs" by auto
      with Inr show ?thesis by blast
    next
      case (Inl msg)
      with True step show ?thesis by (auto split: if_splits dest: IH)
    qed
  qed
qed

text \<open>
  C1 (as amended): for every batch of \<open>K\<close> texts and every behaviour of the generation
  service, whenever \<^verbatim>\<open>process_batch_with_retry\<close> returns, its result is an ordered list
  of exactly \<open>K\<close> items, and it is either the original batch (the exhausted-retry
  fallback) or the repaired list of an accepted response. The items of an accepted
  response are the JSON values the service sent, which need not be strings.
\<close>

theorem result_length:
  assumes "process_batch_with_retry json_loads svc batch = Some (calls, result)"
  shows "length result = length batch \<and>
         (result = map PStr batch \<or> (\<exists>n. attempt json_loads batch (svc n) = Inr result))"
  using retry_loop_length [of json_loads svc batch 0 0 "(calls, result)"]
    retry_loop_outcome [of json_loads svc batch 0 0 "(calls, result)"] assms
  by (simp add: process_batch_with_retry_def)

theorem result_length_witness:
  "process_batch_with_retry (\<lambda>s. Inl (text_of ''Expecting value'')) (\<lambda>n. Raises (text_of ''boom'')) [(text_of ''a''), (text_of ''b'')]
     = Some (2, [PStr (text_of ''a''), PStr (text_of ''b'')]) \<and>
   length [PStr (text_of ''a''), PStr (text_of ''b'')] = length [(text_of ''a''), (text_of ''b'')]"
  using result_length [of "\<lambda>s. Inl (text_of ''Expecting value'')" "\<lambda>n. Raises (text_of ''boom'')" "[(text_of ''a''), (text_of ''b'')]"
      2 "[PStr (text_of ''a''), PStr (text_of ''b'')]"]
  by (simp add: process_batch_with_retry_def retry_loop.simps max_retries_def attempt_def
        rate_limited_def contains_def lower_def lower_char_def text_of_def)

text \<open>
  The result is not always a list of strings: a response \<^verbatim>\<open>[1]\<close> for a batch of one
  text is accepted and returned as it is.
\<close>

theorem non_string_result:
  "process_batch_with_retry (\<lambda>s. Inr (PList [PInt 1])) (\<lambda>n. Text (text_of ''[1]'')) [(text_of ''a'')]
     = Some (1, [PInt 1]) \<and> \<not> list_all is_str [PInt 1]"
  by (simp add: process_batch_with_retry_def retry_loop.simps max_retries_def attempt_def
        pad_with_originals.simps is_str_def text_of_def)


lemma ceil_test: "((9 * K + 9) div 10 \<le> m) = (9 * K \<le> 10 * (m::nat))"
  by arith

text \<open>
  C4: for a batch of \<open>K\<close> texts and a parsed response that is a list of \<open>m\<close> items:
  when \<open>m \<ge> ceil(0.9 * K)\<close> the response is accepted and repaired to exactly \<open>K\<close>
  items, extra items cut from the end and missing trailing positions filled with the
  original inputs at those positions; when \<open>m < ceil(0.9 * K)\<close> a \<^verbatim>\<open>ValueError\<close> is
  raised inside the retry loop, which goes on to its next call.
\<close>

theorem acceptance_policy:
  assumes "json_loads (clean_json_text text) = Inr (PList items)"
  shows "((9 * length batch + 9) div 10 \<le> length items \<longrightarrow>
            attempt json_loads batch (Text text)
              = Inr (take (length batch) items @ map PStr (drop (length items) batch))) \<and>
         (length items < (9 * length batch + 9) div 10 \<longrightarrow>
            attempt json_loads batch (Text text)
              = Inl ((text_of ''Too few items: '') @ str_nat (length items) @ (text_of ''/'')
                       @ str_nat (length batch)) \<and>
            (\<forall>svc retries calls. retries < max_retries \<and> svc calls = Text text \<longrightarrow>
               retry_loop json_loads svc batch retries calls
                 = retry_loop json_loads svc batch
                     (if rate_limited ((text_of ''Too few items: '') @ str_nat (length items) @ (text_of ''/'')
                                         @ str_nat (length batch))
                      then retries else Suc retries)
                     (Suc calls)))"
proof (intro conjI impI)
  assume "(9 * length batch + 9) div 10 \<le> length items"
  then have ok: "9 * length batch \<le> 10 * length items" by (simp add: ceil_test)
  show "attempt json_loads batch (Text text)
          = Inr (take (length batch) items @ map PStr (drop (length items) batch))"
  proof (cases "length batch < length items")
    case True
    with ok assms show ?thesis by (simp add: attempt_def text_of_def)
  next
    case False
    then have "length items \<le> length batch" by simp
    with ok assms False show ?thesis
      by (simp add: attempt_def pad_with_originals_eq text_of_def)
  qed
next
  assume "length items < (9 * length batch + 9) div 10"
  then have few: "\<not> 9 * length batch \<le> 10 * length items"
    using ceil_test [of "length batch" "length items"] by simp
  with assms show few_msg: "attempt json_loads batch (Text text)
      = Inl ((text_of ''Too few items: '') @ str_nat (length items) @ (text_of ''/'') @ str_nat (length batch))"
    by (simp add: attempt_def text_of_def)
  show "\<forall>svc retries calls. retries < max_retries \<and> svc calls = Text text \<longrightarrow>
          retry_loop json_loads svc batch retries calls
            = retry_loop json_loads svc batch
                (if rate_limited ((text_of ''Too few items: '') @ str_nat (length items) @ (text_of ''/'')
                                    @ str_nat (length batch))
                 then retries else Suc retries)
                (Suc calls)"
  proof (intro allI impI)
    fix svc :: "nat \<Rightarrow> response" and retries calls
    assume a: "retries < max_retries \<and> svc calls = Text text"
    then have lt: "retries < max_retries" and here: "svc calls = Text text" by simp_all
    note unfold = retry_loop_step [OF lt, of json_loads svc batch calls]
    from few_msg here show "retry_loop json_loads svc batch retries calls
            = retry_loop json_loads svc batch
                (if rate_limited ((text_of ''Too few items: '') @ str_nat (length items) @ (text_of ''/'')
                                    @ str_nat (length batch))
                 then retries else Suc retries)
                (Suc calls)"
      by (simp add: unfold)
  qed
qed

theorem acceptance_policy_witness:
  "(9 * length [(text_of ''t0''), (text_of ''t1''), (text_of ''t2''), (text_of ''t3''), (text_of ''t4''), (text_of ''t5''), (text_of ''t6''), (text_of ''t7''), (text_of ''t8''), (text_of ''t9'')] + 9) div 10
     \<le> length [PStr (text_of ''r0''), PStr (text_of ''r1''), PStr (text_of ''r2''), PStr (text_of ''r3''), PStr (text_of ''r4''), PStr (text_of ''r5''),
               PStr (text_of ''r6''), PStr (text_of ''r7''), PStr (text_of ''r8'')] \<and>
   attempt (\<lambda>s. Inr (PList [PStr (text_of ''r0''), PStr (text_of ''r1''), PStr (text_of ''r2''), PStr (text_of ''r3''), PStr (text_of ''r4''),
                             PStr (text_of ''r5''), PStr (text_of ''r6''), PStr (text_of ''r7''), PStr (text_of ''r8'')]))
      [(text_of ''t0''), (text_of ''t1''), (text_of ''t2''), (text_of ''t3''), (text_of ''t4''), (text_of ''t5''), (text_of ''t6''), (text_of ''t7''), (text_of ''t8''), (text_of ''t9'')]
      (Text (text_of ''nine items''))
     = Inr [PStr (text_of ''r0''), PStr (text_of ''r1''), PStr (text_of ''r2''), PStr (text_of ''r3''), PStr (text_of ''r4''), PStr (text_of ''r5''),
            PStr (text_of ''r6''), PStr (text_of ''r7''), PStr (text_of ''r8''), PStr (text_of ''t9'')] \<and>
   length [PStr (text_of ''r0''), PStr (text_of ''r1''), PStr (text_of ''r2''), PStr (text_of ''r3''), PStr (text_of ''r4''), PStr (text_of ''r5''),
           PStr (text_of ''r6''), PStr (text_of ''r7'')] 
     < (9 * length [(text_of ''t0''), (text_of ''t1''), (text_of ''t2''), (text_of ''t3''), (text_of ''t4''), (text_of ''t5''), (text_of ''t6''), (text_of ''t7''), (text_of ''t8''), (text_of ''t9'')] + 9) div 10 \<and>
   attempt (\<lambda>s. Inr (PList [PStr (text_of ''r0''), PStr (text_of ''r1''), PStr (text_of ''r2''), PStr (text_of ''r3''), PStr (text_of ''r4''),
                             PStr (text_of ''r5''), PStr (text_of ''r6''), PStr (text_of ''r7'')]))
      [(text_of ''t0''), (text_of ''t1''), (text_of ''t2''), (text_of ''t3''), (text_of ''t4''), (text_of ''t5''), (text_of ''t6''), (text_of ''t7''), (text_of ''t8''), (text_of ''t9'')]
      (Text (text_of ''eight items''))
     = Inl (text_of ''Too few items: 8/10'')"
  using
    acceptance_policy [of "\<lambda>s. Inr (PList [PStr (text_of ''r0''), PStr (text_of ''r1''), PStr (text_of ''r2''), PStr (text_of ''r3''),
        PStr (text_of ''r4''), PStr (text_of ''r5''), PStr (text_of ''r6''), PStr (text_of ''r7''), PStr (text_of ''r8'')])" "(text_of ''nine items'')"
      "[PStr (text_of ''r0''), PStr (text_of ''r1''), PStr (text_of ''r2''), PStr (text_of ''r3''), PStr (text_of ''r4''), PStr (text_of ''r5''),
        PStr (text_of ''r6''), PStr (text_of ''r7''), PStr (text_of ''r8'')]"
      "[(text_of ''t0''), (text_of ''t1''), (text_of ''t2''), (text_of ''t3''), (text_of ''t4''), (text_of ''t5''), (text_of ''t6''), (text_of ''t7''), (text_of ''t8''), (text_of ''t9'')]"]
    acceptance_policy [of "\<lambda>s. Inr (PList [PStr (text_of ''r0''), PStr (text_of ''r1''), PStr (text_of ''r2''), PStr (text_of ''r3''),
        PStr (text_of ''r4''), PStr (text_of ''r5''), PStr (text_of ''r6''), PStr (text_of ''r7'')])" "(text_of ''eight items'')"
      "[PStr (text_of ''r0''), PStr (text_of ''r1''), PStr (text_of ''r2''), PStr (text_of ''r3''), PStr (text_of ''r4''), PStr (text_of ''r5''),
        PStr (text_of ''r6''), PStr (text_of ''r7'')]"
      "[(text_of ''t0''), (text_of ''t1''), (text_of ''t2''), (text_of ''t3''), (text_of ''t4''), (text_of ''t5''), (text_of ''t6''), (text_of ''t7''), (text_of ''t8''), (text_of ''t9'')]"]
  by (simp add: str_nat.simps digit_char_def text_of_def)



text \<open>
  C6 (as amended): \<^verbatim>\<open>process_batch_with_retry\<close> returns exactly when some call of the
  service yields an accepted response or two calls fail with errors that are not
  classified as rate limits. So it returns as soon as rate-limit errors stop, however
  many came first; it is not bounded by the number of rate-limit errors.
\<close>

theorem returns_iff:
  "(\<exists>y. process_batch_with_retry json_loads svc batch = Some y) \<longleftrightarrow>
     (\<exists>n. classify json_loads batch (svc n) = Succeeded) \<or>
     (\<exists>n1 n2. n1 < n2 \<and> classify json_loads batch (svc n1) = Failed \<and>
                classify json_loads batch (svc n2) = Failed)"
proof
  assume "\<exists>y. process_batch_with_retry json_loads svc batch = Some y"
  then obtain y where "retry_loop json_loads svc batch 0 0 = Some y"
    by (auto simp: process_batch_with_retry_def)
  from returns_only_if [OF this]
  show "(\<exists>n. classify json_loads batch (svc n) = Succeeded) \<or>
     (\<exists>n1 n2. n1 < n2 \<and> classify json_loads batch (svc n1) = Failed \<and>
                classify json_loads batch (svc n2) = Failed)"
    by (auto simp: max_retries_def)
next
  assume "(\<exists>n. classify json_loads batch (svc n) = Succeeded) \<or>
     (\<exists>n1 n2. n1 < n2 \<and> classify json_loads batch (svc n1) = Failed \<and>
                classify json_loads batch (svc n2) = Failed)"
  then show "\<exists>y. process_batch_with_retry json_loads svc batch = Some y"
  proof
    assume "\<exists>n. classify json_loads batch (svc n) = Succeeded"
    then obtain n where "classify json_loads batch (svc n) = Succeeded" ..
    from returns_on_success [where svc = svc and N = n, OF this, of 0 0]
    show ?thesis by (simp add: process_batch_with_retry_def)
  next
    assume "\<exists>n1 n2. n1 < n2 \<and> classify json_loads batch (svc n1) = Failed \<and>
                classify json_loads batch (svc n2) = Failed"
    then obtain n1 n2 where "classify json_loads batch (svc n1) = Failed"
      "classify json_loads batch (svc n2) = Failed" "n1 < n2" by blast
    from returns_on_two_failures [where svc = svc and ?N1.0 = n1 and ?N2.0 = n2, OF this, of 0 0]
    show ?thesis by (simp add: process_batch_with_retry_def)
  qed
qed

theorem returns_iff_witness:
  "classify (\<lambda>s. Inr (PList [PStr (text_of ''hi'')])) [(text_of ''hello'')] (Text (text_of ''[hi]'')) = Succeeded \<and>
   process_batch_with_retry (\<lambda>s. Inr (PList [PStr (text_of ''hi'')]))
      (\<lambda>n. if n < 2 then Raises (text_of ''429 Too Many Requests'') else Text (text_of ''[hi]'')) [(text_of ''hello'')]
     = Some (3, [PStr (text_of ''hi'')])"
  using returns_iff [of "\<lambda>s. Inr (PList [PStr (text_of ''hi'')])"
      "\<lambda>n. if n < 2 then Raises (text_of ''429 Too Many Requests'') else Text (text_of ''[hi]'')" "[(text_of ''hello'')]"]
  by (simp add: process_batch_with_retry_def retry_loop.simps max_retries_def classify_def
        attempt_def pad_with_originals.simps rate_limited_def contains_def text_of_def)

text \<open>
  Under a persistent rate-limit condition the loop never ends: a rate-limit error does
  not count as a retry.
\<close>

theorem persistent_rate_limit_never_returns:
  "process_batch_with_retry (\<lambda>s. Inl (text_of ''Expecting value''))
     (\<lambda>n. Raises (text_of ''429 Too Many Requests'')) [(text_of ''hello'')] = None"
proof (rule ccontr)
  assume "process_batch_with_retry (\<lambda>s. Inl (text_of ''Expecting value''))
     (\<lambda>n. Raises (text_of ''429 Too Many Requests'')) [(text_of ''hello'')] \<noteq> None"
  then obtain y where "retry_loop (\<lambda>s. Inl (text_of ''Expecting value''))
     (\<lambda>n. Raises (text_of ''429 Too Many Requests'')) [(text_of ''hello'')] 0 0 = Some y"
    by (auto simp: process_batch_with_retry_def)
  from returns_only_if [OF this]
  have "\<exists>n::nat. classify (\<lambda>s. Inl (text_of ''Expecting value'')) [(text_of ''hello'')]
          (Raises (text_of ''429 Too Many Requests'')) \<noteq> RateLimited"
    by (auto simp: max_retries_def)
  then show False
    by (simp add: classify_def attempt_def rate_limited_def contains_def text_of_def)
qed


subsection \<open>Span extractor and reassembler\<close>

lemma re_search_contains:
  "re_search line = Some m \<Longrightarrow> contains OPEN_TAG line"
  by (auto simp: re_search_def contains_def split: option.splits)

lemma scan_lines_filter:
  "scan_lines xs (is, ts) =
     (is @ map fst (filter (\<lambda>p. re_search (snd p) \<noteq> None) xs),
      ts @ map (\<lambda>p. fst (snd (the (re_search (snd p))))) (filter (\<lambda>p. re_search (snd p) \<noteq> None) xs))"
proof (induction xs arbitrary: "is" ts)
  case Nil
  then show ?case by simp
next
  case (Cons x xs)
  obtain i line where x: "x = (i, line)" by (cases x)
  show ?case
  proof (cases "re_search line")
    case None
    with x Cons.IH show ?thesis by simp
  next
    case (Some m)
    obtain pre body post where m: "m = (pre, body, post)" by (cases m)
    from Some have "contains OPEN_TAG line" by (rule re_search_contains)
    with x Some m Cons.IH show ?thesis by simp
  qed
qed

lemma extract_spans_filter:
  "extract_spans lines =
     (map fst (filter (\<lambda>p. re_search (snd p) \<noteq> None) (enumerate 0 lines)),
      map (\<lambda>p. fst (snd (the (re_search (snd p))))) (filter (\<lambda>p. re_search (snd p) \<noteq> None) (enumerate 0 lines)))"
  by (simp add: extract_spans_def scan_lines_filter)

lemma extract_spans_same_length:
  "length (fst (extract_spans lines)) = length (snd (extract_spans lines))"
  by (simp add: extract_spans_filter)

lemma extract_spans_distinct: "distinct (fst (extract_spans lines))"
  by (simp add: extract_spans_filter distinct_map_filter)

lemma extract_spans_mem:
  "j \<in> set (fst (extract_spans lines)) \<longleftrightarrow> j < length lines \<and> re_search (lines ! j) \<noteq> None"
  by (auto simp: extract_spans_filter in_set_enumerate_eq image_iff)

lemma extract_spans_nth:
  assumes "k < length (fst (extract_spans lines))"
  shows "fst (extract_spans lines) ! k < length lines \<and>
         (\<exists>pre post. re_search (lines ! (fst (extract_spans lines) ! k))
            = Some (pre, snd (extract_spans lines) ! k, post))"
proof -
  let ?F = "filter (\<lambda>p. re_search (snd p) \<noteq> None) (enumerate 0 lines)"
  from assms have k: "k < length ?F" by (simp add: extract_spans_filter)
  from nth_mem [OF k] have "?F ! k \<in> {x \<in> set (enumerate 0 lines). re_search (snd x) \<noteq> None}"
    by (simp only: set_filter)
  then have mem: "?F ! k \<in> set (enumerate 0 lines)" and fl: "re_search (snd (?F ! k)) \<noteq> None"
    by blast+
  obtain i line where p: "?F ! k = (i, line)" by (cases "?F ! k")
  from mem p have i: "i < length lines" "line = lines ! i"
    by (auto simp: in_set_enumerate_eq)
  from fl p obtain pre body post where m: "re_search line = Some (pre, body, post)"
    by auto
  from k p have "fst (extract_spans lines) ! k = i"
    by (simp add: extract_spans_filter)
  moreover from k p m have "snd (extract_spans lines) ! k = body"
    by (simp add: extract_spans_filter)
  ultimately show ?thesis using i m by auto
qed

lemma rebuild_distinct:
  assumes "distinct (map snd ps)"
    and "\<forall>(i, line_idx) \<in> set ps. line_idx < length lines \<and> i < length texts"
  shows "\<exists>out. rebuild py_str ps texts lines = Inr out \<and> length out = length lines \<and>
           (\<forall>(i, line_idx) \<in> set ps.
              out ! line_idx = re_sub (to_text py_str (texts ! i)) (lines ! line_idx)) \<and>
           (\<forall>j. j \<notin> snd ` set ps \<longrightarrow> out ! j = lines ! j)"
  using assms
proof (induction ps arbitrary: lines)
  case Nil
  then show ?case by simp
next
  case (Cons p ps)
  obtain i line_idx where p: "p = (i, line_idx)" by (cases p)
  let ?new = "re_sub (to_text py_str (texts ! i)) (lines ! line_idx)"
  let ?lines = "lines[line_idx := ?new]"
  from Cons.prems p have in_range: "line_idx < length lines" "i < length texts" by auto
  from Cons.prems p have fresh: "line_idx \<notin> snd ` set ps" and dist: "distinct (map snd ps)"
    by auto
  from Cons.prems have "\<forall>(i, line_idx) \<in> set ps. line_idx < length ?lines \<and> i < length texts"
    by auto
  from Cons.IH [OF dist this] obtain out where
    out: "rebuild py_str ps texts ?lines = Inr out" "length out = length ?lines"
      "\<forall>(i, line_idx) \<in> set ps. out ! line_idx = re_sub (to_text py_str (texts ! i)) (?lines ! line_idx)"
      "\<forall>j. j \<notin> snd ` set ps \<longrightarrow> out ! j = ?lines ! j"
    by blast
  have "rebuild py_str (p # ps) texts lines = Inr out"
    using p in_range out(1) by simp
  moreover have "length out = length lines" using out(2) by simp
  moreover have "\<forall>(i', l') \<in> set (p # ps).
      out ! l' = re_sub (to_text py_str (texts ! i')) (lines ! l')"
  proof (intro ballI, clarify)
    fix i' l' assume mem: "(i', l') \<in> set (p # ps)"
    show "out ! l' = re_sub (to_text py_str (texts ! i')) (lines ! l')"
    proof (cases "(i', l') = p")
      case True
      with p have "i' = i" "l' = line_idx" by simp_all
      with out(4) fresh in_range show ?thesis by simp
    next
      case False
      with mem have in_ps: "(i', l') \<in> set ps" by simp
      then have "l' \<in> snd ` set ps" by force
      with fresh have "l' \<noteq> line_idx" by auto
      with out(3) in_ps show ?thesis by auto
    qed
  qed
  moreover have "\<forall>j. j \<notin> snd ` set (p # ps) \<longrightarrow> out ! j = lines ! j"
    using out(4) p by auto
  ultimately show ?case by blast
qed

lemma reassemble_extracted:
  assumes "length (fst (extract_spans lines)) \<le> length texts"
  shows "\<exists>out. reassemble py_str lines (fst (extract_spans lines)) texts = Inr out \<and>
           length out = length lines \<and>
           (\<forall>k<length (fst (extract_spans lines)).
              out ! (fst (extract_spans lines) ! k)
                = re_sub (to_text py_str (texts ! k)) (lines ! (fst (extract_spans lines) ! k))) \<and>
           (\<forall>j<length lines. re_search (lines ! j) = None \<longrightarrow> out ! j = lines ! j)"
proof -
  let ?idx = "fst (extract_spans lines)"
  let ?ps = "enumerate 0 ?idx"
  have snd_ps: "map snd ?ps = ?idx" by simp
  have "distinct (map snd ?ps)"
    by (simp only: snd_ps extract_spans_distinct)
  moreover have "\<forall>(i, line_idx) \<in> set ?ps. line_idx < length lines \<and> i < length texts"
    using assms extract_spans_nth [of _ lines]
    by (auto simp: in_set_enumerate_eq)
  ultimately obtain out where
    out: "rebuild py_str ?ps texts lines = Inr out" "length out = length lines"
      "\<forall>(i, line_idx) \<in> set ?ps.
          out ! line_idx = re_sub (to_text py_str (texts ! i)) (lines ! line_idx)"
      "\<forall>j. j \<notin> snd ` set ?ps \<longrightarrow> out ! j = lines ! j"
    using rebuild_distinct [of ?ps lines texts py_str] by blast
  have "\<forall>k<length ?idx. out ! (?idx ! k) = re_sub (to_text py_str (texts ! k)) (lines ! (?idx ! k))"
  proof (intro allI impI)
    fix k assume "k < length ?idx"
    then have "(k, ?idx ! k) \<in> set ?ps" by (simp add: in_set_enumerate_eq)
    with out(3) show "out ! (?idx ! k) = re_sub (to_text py_str (texts ! k)) (lines ! (?idx ! k))"
      by blast
  qed
  moreover have "\<forall>j<length lines. re_search (lines ! j) = None \<longrightarrow> out ! j = lines ! j"
  proof (intro allI impI)
    fix j assume "j < length lines" "re_search (lines ! j) = None"
    then have "j \<notin> set ?idx" by (simp add: extract_spans_mem)
    moreover have "snd ` set ?ps = set ?idx"
      by (metis snd_ps list.set_map)
    ultimately have "j \<notin> snd ` set ?ps" by simp
    with out(4) show "out ! j = lines ! j" by blast
  qed
  ultimately show ?thesis using out(1,2) by (auto simp: reassemble_def)
qed

lemma extract_spans_position:
  assumes "j < length lines" and "re_search (lines ! j) = Some (pre, body, post)"
  shows "\<exists>k<length (fst (extract_spans lines)).
           fst (extract_spans lines) ! k = j \<and> snd (extract_spans lines) ! k = body \<and>
           (\<forall>k'<length (fst (extract_spans lines)). fst (extract_spans lines) ! k' = j \<longrightarrow> k' = k)"
proof -
  let ?idx = "fst (extract_spans lines)"
  from assms have "j \<in> set ?idx" by (simp add: extract_spans_mem)
  then obtain k where k: "k < length ?idx" "?idx ! k = j" by (auto simp: in_set_conv_nth)
  from extract_spans_nth [OF k(1)] k(2) assms(2)
  have "snd (extract_spans lines) ! k = body" by auto
  moreover have "\<forall>k'<length ?idx. ?idx ! k' = j \<longrightarrow> k' = k"
    using k extract_spans_distinct [of lines] by (auto simp: nth_eq_iff_index_eq)
  ultimately show ?thesis using k by blast
qed

lemma re_sub_no_match: "re_search line = None \<Longrightarrow> re_sub safe_text line = line"
  by (subst re_sub.simps) simp

lemma re_sub_match:
  "re_search line = Some (pre, body, post) \<Longrightarrow>
     re_sub safe_text line = pre @ safe_text @ re_sub safe_text post"
  by (subst re_sub.simps) simp

text \<open>
  C2 (as amended): for every document \<open>D\<close>, reassembling \<open>D\<close> with the span indices and
  the unmodified span texts that extraction produced succeeds and yields a document of
  as many lines. A line without a delimiter pair is unchanged. On a flagged line
  \<open>pre <TAG> body </TAG> post\<close> the first pair is replaced by the text it enclosed and
  every further pair of the line by that same text of the first pair, not by its own:
  the line becomes \<open>pre body\<close> followed by \<open>post\<close> with its pairs replaced by \<open>body\<close>.
  So a line with one pair comes back without its two delimiters and otherwise as it
  was, and the result is \<open>D\<close> itself when no line of \<open>D\<close> has a delimiter pair.
\<close>

theorem roundtrip_removes_delimiters:
  "\<exists>out. reassemble py_str D (fst (extract_spans D)) (map PStr (snd (extract_spans D)))
           = Inr out \<and>
         length out = length D \<and>
         (\<forall>j<length D.
            case re_search (D ! j) of
              None \<Rightarrow> out ! j = D ! j
            | Some (pre, body, post) \<Rightarrow>
                D ! j = pre @ OPEN_TAG @ body @ CLOSE_TAG @ post \<and>
                out ! j = pre @ body @ re_sub body post \<and>
                (re_search post = None \<longrightarrow> out ! j = pre @ body @ post)) \<and>
         ((\<forall>line \<in> set D. re_search line = None) \<longrightarrow> out = D)"
proof -
  let ?idx = "fst (extract_spans D)" and ?txt = "snd (extract_spans D)"
  have "length ?idx \<le> length (map PStr ?txt)" by (simp add: extract_spans_same_length)
  from reassemble_extracted [OF this, of py_str] obtain out where
    out: "reassemble py_str D ?idx (map PStr ?txt) = Inr out" "length out = length D"
      "\<forall>k<length ?idx. out ! (?idx ! k)
          = re_sub (to_text py_str (map PStr ?txt ! k)) (D ! (?idx ! k))"
      "\<forall>j<length D. re_search (D ! j) = None \<longrightarrow> out ! j = D ! j"
    by blast
  have lines: "\<forall>j<length D.
      case re_search (D ! j) of
        None \<Rightarrow> out ! j = D ! j
      | Some (pre, body, post) \<Rightarrow>
          D ! j = pre @ OPEN_TAG @ body @ CLOSE_TAG @ post \<and>
          out ! j = pre @ body @ re_sub body post \<and>
          (re_search post = None \<longrightarrow> out ! j = pre @ body @ post)"
  proof (intro allI impI)
    fix j assume j: "j < length D"
    show "case re_search (D ! j) of
        None \<Rightarrow> out ! j = D ! j
      | Some (pre, body, post) \<Rightarrow>
          D ! j = pre @ OPEN_TAG @ body @ CLOSE_TAG @ post \<and>
          out ! j = pre @ body @ re_sub body post \<and>
          (re_search post = None \<longrightarrow> out ! j = pre @ body @ post)"
    proof (cases "re_search (D ! j)")
      case None
      with out(4) j show ?thesis by simp
    next
      case (Some m)
      obtain pre body post where m: "m = (pre, body, post)" by (cases m)
      from Some m have found: "re_search (D ! j) = Some (pre, body, post)" by simp
      from extract_spans_position [OF j found] obtain k where
        k: "k < length ?idx" "?idx ! k = j" "?txt ! k = body" by blast
      from k(1) have "k < length ?txt" by (simp add: extract_spans_same_length)
      with out(3) k have "out ! j = re_sub body (D ! j)" by (auto simp: to_text_def)
      with found have eq: "out ! j = pre @ body @ re_sub body post"
        by (simp add: re_sub_match)
      then have one: "re_search post = None \<longrightarrow> out ! j = pre @ body @ post"
        by (simp add: re_sub_no_match)
      from found have "D ! j = pre @ OPEN_TAG @ body @ CLOSE_TAG @ post"
        by (rule re_search_decomp)
      with eq one found show ?thesis by simp
    qed
  qed
  have "(\<forall>line \<in> set D. re_search line = None) \<longrightarrow> out = D"
  proof
    assume none: "\<forall>line \<in> set D. re_search line = None"
    show "out = D"
    proof (rule nth_equalityI)
      show "length out = length D" by (rule out(2))
    next
      fix j assume "j < length out"
      with out(2) have j: "j < length D" by simp
      with none have "re_search (D ! j) = None" by simp
      with out(4) j show "out ! j = D ! j" by simp
    qed
  qed
  with out(1,2) lines show ?thesis by blast
qed

theorem roundtrip_removes_delimiters_witness:
  "reassemble (\<lambda>v. text_of ''?'')
     [text_of ''A: <TO_GENERALIZE>hello</TO_GENERALIZE>!'', text_of ''B: normal line'',
      text_of ''<TO_GENERALIZE>a</TO_GENERALIZE> and <TO_GENERALIZE>b</TO_GENERALIZE>.'']
     (fst (extract_spans
        [text_of ''A: <TO_GENERALIZE>hello</TO_GENERALIZE>!'', text_of ''B: normal line'',
         text_of ''<TO_GENERALIZE>a</TO_GENERALIZE> and <TO_GENERALIZE>b</TO_GENERALIZE>.'']))
     (map PStr (snd (extract_spans
        [text_of ''A: <TO_GENERALIZE>hello</TO_GENERALIZE>!'', text_of ''B: normal line'',
         text_of ''<TO_GENERALIZE>a</TO_GENERALIZE> and <TO_GENERALIZE>b</TO_GENERALIZE>.''])))
     = Inr [text_of ''A: hello!'', text_of ''B: normal line'', text_of ''a and a.''] \<and>
   re_search (text_of ''A: <TO_GENERALIZE>hello</TO_GENERALIZE>!'')
     = Some (text_of ''A: '', text_of ''hello'', text_of ''!'') \<and>
   re_search (text_of ''!'') = None \<and>
   re_search (text_of ''B: normal line'') = None \<and>
   reassemble (\<lambda>v. text_of ''?'') [text_of ''B: normal line'']
     (fst (extract_spans [text_of ''B: normal line'']))
     (map PStr (snd (extract_spans [text_of ''B: normal line''])))
     = Inr [text_of ''B: normal line'']"
proof -
  let ?D = "[text_of ''A: <TO_GENERALIZE>hello</TO_GENERALIZE>!'', text_of ''B: normal line'',
      text_of ''<TO_GENERALIZE>a</TO_GENERALIZE> and <TO_GENERALIZE>b</TO_GENERALIZE>.'']"
  note eval = reassemble_def extract_spans_def enumerate_eq_zip contains_def re_search_def
    OPEN_TAG_def CLOSE_TAG_def to_text_def re_sub.simps text_of_def
  have flagged: "reassemble (\<lambda>v. text_of ''?'') ?D (fst (extract_spans ?D))
      (map PStr (snd (extract_spans ?D)))
     = Inr [text_of ''A: hello!'', text_of ''B: normal line'', text_of ''a and a.'']"
    by (simp add: eval)
  have spans: "re_search (text_of ''A: <TO_GENERALIZE>hello</TO_GENERALIZE>!'')
     = Some (text_of ''A: '', text_of ''hello'', text_of ''!'')"
    "re_search (text_of ''!'') = None" "re_search (text_of ''B: normal line'') = None"
    by (simp_all add: eval)
  have plain: "\<forall>line \<in> set [text_of ''B: normal line'']. re_search line = None"
    using spans(3) by simp
  from roundtrip_removes_delimiters [of "\<lambda>v. text_of ''?''" "[text_of ''B: normal line'']"] plain
  have "reassemble (\<lambda>v. text_of ''?'') [text_of ''B: normal line'']
     (fst (extract_spans [text_of ''B: normal line'']))
     (map PStr (snd (extract_spans [text_of ''B: normal line''])))
     = Inr [text_of ''B: normal line'']"
    by blast
  with roundtrip_removes_delimiters [of "\<lambda>v. text_of ''?''" ?D] flagged spans
  show ?thesis by blast
qed

text \<open>
  The round trip is not the identity on a document with a flagged span: the delimiters
  are gone from the result.
\<close>

theorem roundtrip_not_identity:
  "reassemble (\<lambda>v. text_of ''?'') [text_of ''A: <TO_GENERALIZE>hello</TO_GENERALIZE>'']
     (fst (extract_spans [text_of ''A: <TO_GENERALIZE>hello</TO_GENERALIZE>'']))
     (map PStr (snd (extract_spans [text_of ''A: <TO_GENERALIZE>hello</TO_GENERALIZE>''])))
     = Inr [text_of ''A: hello''] \<and>
   [text_of ''A: hello''] \<noteq> [text_of ''A: <TO_GENERALIZE>hello</TO_GENERALIZE>'']"
  by (simp add: reassemble_def extract_spans_def enumerate_eq_zip contains_def re_search_def
        OPEN_TAG_def CLOSE_TAG_def to_text_def re_sub.simps text_of_def)

subsection \<open>The driver\<close>

lemma pad_with_originals_length:
  "length originals \<le> length (pad_with_originals originals results)"
proof (cases "length results \<le> length originals")
  case True
  then show ?thesis by (simp add: pad_with_originals_eq)
next
  case False
  then show ?thesis by (simp add: pad_with_originals_long)
qed

lemma loss_over_5_above:
  assumes "20 * n < 19 * total_dirty"
  shows "loss_over_5 n total_dirty"
proof -
  from assms have "20 * n \<le> 19 * total_dirty" by simp
  then have "(20 * n) * 2 ^ 54 \<le> (19 * total_dirty) * 2 ^ 54"
    by (rule mult_le_mono1)
  also have "(19 * total_dirty) * 2 ^ 54 \<le> 20 * (17113678584007885 * total_dirty)"
    by simp
  finally have "20 * (n * 2 ^ 54) \<le> 20 * (17113678584007885 * total_dirty)"
    by (simp add: mult.assoc)
  then show ?thesis by (simp add: loss_over_5_def)
qed

lemma process_dataset_returns:
  assumes "process_dataset json_loads py_str service (Some lines) ckpt_file = Some res"
  shows "\<exists>batches st out.
           batcher BATCH_SIZE (snd (extract_spans lines)) = Inr batches \<and>
           run_batches json_loads service (enumerate 0 batches) (initial_state ckpt_file)
             = Some st \<and>
           reassemble py_str lines (fst (extract_spans lines))
             (if length (cleaned st) \<noteq> length (fst (extract_spans lines))
              then pad_with_originals (snd (extract_spans lines)) (cleaned st)
              else cleaned st) = Inr out \<and>
           length out = length lines \<and>
           res = \<lparr>output_file = Some (takeWhile utf8_encodable out),
                  checkpoint_file = (if list_all utf8_encodable out then None else saved st),
                  printed = trace st @
                    (if length (cleaned st) \<noteq> length (fst (extract_spans lines)) then
                       [LossReport (length (cleaned st)) (length (fst (extract_spans lines))),
                        if 0 < length (fst (extract_spans lines)) \<and>
                           loss_over_5 (length (cleaned st))
                             (length (fst (extract_spans lines)))
                        then LossWarning else LossAcceptable]
                     else []),
                  raised = (if list_all utf8_encodable out then None
                            else Some UnicodeEncodeError)\<rparr>"
proof -
  let ?idx = "fst (extract_spans lines)" and ?txt = "snd (extract_spans lines)"
  obtain batches where b: "batcher BATCH_SIZE ?txt = Inr batches"
    by (simp add: batcher_def BATCH_SIZE_def)
  from assms b obtain st where
    st: "run_batches json_loads service (enumerate 0 batches) (initial_state ckpt_file) = Some st"
    by (auto simp: process_dataset_def case_prod_beta Let_def split: option.splits)
  let ?padded = "if length (cleaned st) \<noteq> length ?idx
                 then pad_with_originals ?txt (cleaned st) else cleaned st"
  have "length ?idx \<le> length ?padded"
    using pad_with_originals_length [of ?txt "cleaned st"]
    by (simp add: extract_spans_same_length)
  from reassemble_extracted [OF this, of py_str] obtain out where
    out: "reassemble py_str lines ?idx ?padded = Inr out" "length out = length lines"
    by blast
  show ?thesis
  proof (cases "list_all utf8_encodable out")
    case True
    with assms b st out have "res = \<lparr>output_file = Some (takeWhile utf8_encodable out),
        checkpoint_file = None,
        printed = trace st @
          (if length (cleaned st) \<noteq> length ?idx then
             [LossReport (length (cleaned st)) (length ?idx),
              if 0 < length ?idx \<and> loss_over_5 (length (cleaned st)) (length ?idx)
              then LossWarning else LossAcceptable]
           else []),
        raised = None\<rparr>"
      by (simp add: process_dataset_def case_prod_beta Let_def writelines_def)
    with True b st out show ?thesis by simp
  next
    case False
    with assms b st out have "res = \<lparr>output_file = Some (takeWhile utf8_encodable out),
        checkpoint_file = saved st,
        printed = trace st @
          (if length (cleaned st) \<noteq> length ?idx then
             [LossReport (length (cleaned st)) (length ?idx),
              if 0 < length ?idx \<and> loss_over_5 (length (cleaned st)) (length ?idx)
              then LossWarning else LossAcceptable]
           else []),
        raised = Some UnicodeEncodeError\<rparr>"
      by (simp add: process_dataset_def case_prod_beta Let_def writelines_def)
    with False b st out show ?thesis by simp
  qed
qed

text \<open>
  C3 (as amended): a mismatch between the number of accumulated rewritten texts and the
  number of extracted spans never stops the run. It is printed: the two counts, then
  the warning whenever the loss exceeds 5% (the test is the floating-point one above,
  which also warns at a loss of exactly 5% such as 19 texts of 20), otherwise the
  "acceptable" note. A shorter sequence is padded with the original span texts, and the
  complete reassembled document, with all its lines, goes to the output write whatever
  the loss. The write stores the whole document and the checkpoint is removed; only
  when a line cannot be encoded as UTF-8 (a lone surrogate in a rewritten text) does
  the write raise \<^verbatim>\<open>UnicodeEncodeError\<close>, and then the output file holds the lines
  before that line and the checkpoint stays.
\<close>

theorem mismatch_reported_output_written:
  assumes "process_dataset json_loads py_str service (Some lines) ckpt_file = Some res"
  shows "\<exists>batches st out.
           batcher BATCH_SIZE (snd (extract_spans lines)) = Inr batches \<and>
           run_batches json_loads service (enumerate 0 batches) (initial_state ckpt_file)
             = Some st \<and>
           reassemble py_str lines (fst (extract_spans lines))
             (if length (cleaned st) \<noteq> length (fst (extract_spans lines))
              then pad_with_originals (snd (extract_spans lines)) (cleaned st)
              else cleaned st) = Inr out \<and>
           length out = length lines \<and>
           output_file res = Some (takeWhile utf8_encodable out) \<and>
           (list_all utf8_encodable out \<longrightarrow>
              output_file res = Some out \<and> checkpoint_file res = None \<and> raised res = None) \<and>
           (\<not> list_all utf8_encodable out \<longrightarrow>
              checkpoint_file res = saved st \<and> raised res = Some UnicodeEncodeError) \<and>
           (length (cleaned st) = length (fst (extract_spans lines)) \<longrightarrow>
              printed res = trace st) \<and>
           (length (cleaned st) \<noteq> length (fst (extract_spans lines)) \<longrightarrow>
              printed res = trace st @
                [LossReport (length (cleaned st)) (length (fst (extract_spans lines))),
                 if 0 < length (fst (extract_spans lines)) \<and>
                    loss_over_5 (length (cleaned st)) (length (fst (extract_spans lines)))
                 then LossWarning else LossAcceptable]) \<and>
           (20 * length (cleaned st) < 19 * length (fst (extract_spans lines)) \<longrightarrow>
              printed res = trace st @
                [LossReport (length (cleaned st)) (length (fst (extract_spans lines))),
                 LossWarning])"
proof -
  let ?idx = "fst (extract_spans lines)" and ?txt = "snd (extract_spans lines)"
  from process_dataset_returns [OF assms] obtain batches st out where
    r: "batcher BATCH_SIZE ?txt = Inr batches"
       "run_batches json_loads service (enumerate 0 batches) (initial_state ckpt_file) = Some st"
       "reassemble py_str lines ?idx
          (if length (cleaned st) \<noteq> length ?idx
           then pad_with_originals ?txt (cleaned st) else cleaned st) = Inr out"
       "length out = length lines"
    and res: "res = \<lparr>output_file = Some (takeWhile utf8_encodable out),
                  checkpoint_file = (if list_all utf8_encodable out then None else saved st),
                  printed = trace st @
                    (if length (cleaned st) \<noteq> length ?idx then
                       [LossReport (length (cleaned st)) (length ?idx),
                        if 0 < length ?idx \<and> loss_over_5 (length (cleaned st)) (length ?idx)
                        then LossWarning else LossAcceptable]
                     else []),
                  raised = (if list_all utf8_encodable out then None
                            else Some UnicodeEncodeError)\<rparr>"
    by blast
  have stored: "output_file res = Some (takeWhile utf8_encodable out)"
    by (simp add: res)
  have whole: "list_all utf8_encodable out \<longrightarrow>
      output_file res = Some out \<and> checkpoint_file res = None \<and> raised res = None"
  proof
    assume all: "list_all utf8_encodable out"
    then have "takeWhile utf8_encodable out = out"
      by (simp add: list_all_iff takeWhile_eq_all_conv)
    with all show "output_file res = Some out \<and> checkpoint_file res = None \<and> raised res = None"
      by (simp add: res)
  qed
  have partial: "\<not> list_all utf8_encodable out \<longrightarrow>
      checkpoint_file res = saved st \<and> raised res = Some UnicodeEncodeError"
    by (simp add: res)
  have same: "length (cleaned st) = length ?idx \<longrightarrow> printed res = trace st"
    by (simp add: res)
  have differ: "length (cleaned st) \<noteq> length ?idx \<longrightarrow>
      printed res = trace st @
        [LossReport (length (cleaned st)) (length ?idx),
         if 0 < length ?idx \<and> loss_over_5 (length (cleaned st)) (length ?idx)
         then LossWarning else LossAcceptable]"
    by (simp add: res)
  have above: "20 * length (cleaned st) < 19 * length ?idx \<longrightarrow>
      printed res = trace st @ [LossReport (length (cleaned st)) (length ?idx), LossWarning]"
  proof
    assume lost: "20 * length (cleaned st) < 19 * length ?idx"
    then have "length (cleaned st) \<noteq> length ?idx" "0 < length ?idx" by auto
    moreover from lost have "loss_over_5 (length (cleaned st)) (length ?idx)"
      by (rule loss_over_5_above)
    ultimately show "printed res
        = trace st @ [LossReport (length (cleaned st)) (length ?idx), LossWarning]"
      by (simp add: res)
  qed
  from r stored whole partial same differ above show ?thesis by blast
qed

theorem mismatch_reported_output_written_witness:
  "process_dataset (\<lambda>s. Inl (text_of ''Expecting value'')) (\<lambda>v. text_of ''?'')
      (\<lambda>i n. Raises (text_of ''unreachable''))
      (Some [text_of ''A: <TO_GENERALIZE>hello</TO_GENERALIZE>'', text_of ''B: normal line''])
      (Some \<lparr>completed_batches = {0},
             cleaned_texts = [PStr (text_of ''hi''), PStr (text_of ''extra'')]\<rparr>)
     = Some \<lparr>output_file = Some [text_of ''A: hi'', text_of ''B: normal line''],
             checkpoint_file = None,
             printed = [LossReport 2 1, LossAcceptable],
             raised = None\<rparr> \<and>
   process_dataset (\<lambda>s. Inl (text_of ''Expecting value'')) (\<lambda>v. text_of ''?'')
      (\<lambda>i n. Raises (text_of ''unreachable''))
      (Some [text_of ''A: <TO_GENERALIZE>hello</TO_GENERALIZE>'',
             text_of ''B: <TO_GENERALIZE>bye</TO_GENERALIZE>''])
      (Some \<lparr>completed_batches = {0}, cleaned_texts = [PStr (text_of ''hi'')]\<rparr>)
     = Some \<lparr>output_file = Some [text_of ''A: hi'', text_of ''B: bye''],
             checkpoint_file = None,
             printed = [LossReport 1 2, LossWarning],
             raised = None\<rparr> \<and>
   process_dataset (\<lambda>s. Inl (text_of ''Expecting value'')) (\<lambda>v. text_of ''?'')
      (\<lambda>i n. Raises (text_of ''unreachable''))
      (Some [text_of ''B: normal line'', text_of ''A: <TO_GENERALIZE>hello</TO_GENERALIZE>''])
      (Some \<lparr>completed_batches = {0},
             cleaned_texts = [PStr (text_of ''hi '' @ [55357]), PStr (text_of ''extra'')]\<rparr>)
     = Some \<lparr>output_file = Some [text_of ''B: normal line''],
             checkpoint_file =
               Some \<lparr>completed_batches = {0},
                     cleaned_texts = [PStr (text_of ''hi '' @ [55357]),
                                      PStr (text_of ''extra'')]\<rparr>,
             printed = [LossReport 2 1, LossAcceptable],
             raised = Some UnicodeEncodeError\<rparr>"
proof -
  note eval = process_dataset_def reassemble_def extract_spans_def enumerate_eq_zip
    contains_def re_search_def OPEN_TAG_def CLOSE_TAG_def to_text_def re_sub.simps
    batcher_def BATCH_SIZE_def py_range.simps py_slice_def initial_state_def
    load_checkpoint_def pad_with_originals.simps writelines_def utf8_encodable_def
    loss_over_5_def text_of_def
  have surplus: "process_dataset (\<lambda>s. Inl (text_of ''Expecting value'')) (\<lambda>v. text_of ''?'')
      (\<lambda>i n. Raises (text_of ''unreachable''))
      (Some [text_of ''A: <TO_GENERALIZE>hello</TO_GENERALIZE>'', text_of ''B: normal line''])
      (Some \<lparr>completed_batches = {0},
             cleaned_texts = [PStr (text_of ''hi''), PStr (text_of ''extra'')]\<rparr>)
     = Some \<lparr>output_file = Some [text_of ''A: hi'', text_of ''B: normal line''],
             checkpoint_file = None,
             printed = [LossReport 2 1, LossAcceptable],
             raised = None\<rparr>"
    by (simp add: eval)
  have short: "process_dataset (\<lambda>s. Inl (text_of ''Expecting value'')) (\<lambda>v. text_of ''?'')
      (\<lambda>i n. Raises (text_of ''unreachable''))
      (Some [text_of ''A: <TO_GENERALIZE>hello</TO_GENERALIZE>'',
             text_of ''B: <TO_GENERALIZE>bye</TO_GENERALIZE>''])
      (Some \<lparr>completed_batches = {0}, cleaned_texts = [PStr (text_of ''hi'')]\<rparr>)
     = Some \<lparr>output_file = Some [text_of ''A: hi'', text_of ''B: bye''],
             checkpoint_file = None,
             printed = [LossReport 1 2, LossWarning],
             raised = None\<rparr>"
    by (simp add: eval)
  have surrogate: "process_dataset (\<lambda>s. Inl (text_of ''Expecting value'')) (\<lambda>v. text_of ''?'')
      (\<lambda>i n. Raises (text_of ''unreachable''))
      (Some [text_of ''B: normal line'', text_of ''A: <TO_GENERALIZE>hello</TO_GENERALIZE>''])
      (Some \<lparr>completed_batches = {0},
             cleaned_texts = [PStr (text_of ''hi '' @ [55357]), PStr (text_of ''extra'')]\<rparr>)
     = Some \<lparr>output_file = Some [text_of ''B: normal line''],
             checkpoint_file =
               Some \<lparr>completed_batches = {0},
                     cleaned_texts = [PStr (text_of ''hi '' @ [55357]),
                                      PStr (text_of ''extra'')]\<rparr>,
             printed = [LossReport 2 1, LossAcceptable],
             raised = Some UnicodeEncodeError\<rparr>"
    by (simp add: eval)
  from mismatch_reported_output_written [OF surplus] mismatch_reported_output_written [OF short]
    mismatch_reported_output_written [OF surrogate] surplus short surrogate
  show ?thesis by blast
qed

text \<open>
  A stale checkpoint that marks batch 0 completed and holds no text: the loss is 100%,
  the warning is printed, and the output document is written nevertheless, with the
  original span text in place.
\<close>

theorem total_loss_still_written:
  "process_dataset (\<lambda>s. Inl (text_of ''Expecting value'')) (\<lambda>v. text_of ''?'')
      (\<lambda>i n. Raises (text_of ''unreachable''))
      (Some [text_of ''A: <TO_GENERALIZE>hello</TO_GENERALIZE>'', text_of ''B: normal line''])
      (Some \<lparr>completed_batches = {0}, cleaned_texts = []\<rparr>)
     = Some \<lparr>output_file = Some [text_of ''A: hello'', text_of ''B: normal line''],
             checkpoint_file = None,
             printed = [LossReport 0 1, LossWarning],
             raised = None\<rparr>"
  by (simp add: process_dataset_def reassemble_def extract_spans_def enumerate_eq_zip
        contains_def re_search_def OPEN_TAG_def CLOSE_TAG_def to_text_def re_sub.simps
        batcher_def BATCH_SIZE_def py_range.simps py_slice_def initial_state_def
        load_checkpoint_def pad_with_originals.simps writelines_def utf8_encodable_def
        loss_over_5_def text_of_def)



text \<open>
  C10: a line with two or more delimiter pairs yields exactly one span, the body of
  the first pair up to the first closing tag; reassembly replaces the first and the
  second pair (and, through \<open>re_sub\<close> on the rest, every later one) by the rewritten
  text of that one span, so the body of the second pair does not reach the output.
\<close>

theorem later_pairs_take_first_rewrite:
  assumes "j < length lines"
    and "re_search (lines ! j) = Some (pre, body, post)"
    and "re_search post = Some (pre2, body2, post2)"
    and "length (fst (extract_spans lines)) \<le> length texts"
  shows "\<exists>k out. k < length (fst (extract_spans lines)) \<and>
           fst (extract_spans lines) ! k = j \<and> snd (extract_spans lines) ! k = body \<and>
           (\<forall>k'<length (fst (extract_spans lines)).
              fst (extract_spans lines) ! k' = j \<longrightarrow> k' = k) \<and>
           reassemble py_str lines (fst (extract_spans lines)) texts = Inr out \<and>
           out ! j = pre @ to_text py_str (texts ! k) @ pre2 @ to_text py_str (texts ! k)
                       @ re_sub (to_text py_str (texts ! k)) post2"
proof -
  let ?idx = "fst (extract_spans lines)"
  from extract_spans_position [OF assms(1,2)] obtain k where
    k: "k < length ?idx" "?idx ! k = j" "snd (extract_spans lines) ! k = body"
       "\<forall>k'<length ?idx. ?idx ! k' = j \<longrightarrow> k' = k"
    by blast
  from reassemble_extracted [OF assms(4), of py_str] obtain out where
    out: "reassemble py_str lines ?idx texts = Inr out"
      "\<forall>k<length ?idx. out ! (?idx ! k)
          = re_sub (to_text py_str (texts ! k)) (lines ! (?idx ! k))"
    by blast
  let ?t = "to_text py_str (texts ! k)"
  from out(2) k(1,2) have "out ! j = re_sub ?t (lines ! j)" by auto
  also have "\<dots> = pre @ ?t @ re_sub ?t post" using assms(2) by (rule re_sub_match)
  also have "re_sub ?t post = pre2 @ ?t @ re_sub ?t post2" using assms(3) by (rule re_sub_match)
  finally have "out ! j = pre @ ?t @ pre2 @ ?t @ re_sub ?t post2" .
  with k out(1) show ?thesis by blast
qed

theorem later_pairs_take_first_rewrite_witness:
  "re_search (text_of ''<TO_GENERALIZE>a</TO_GENERALIZE> and <TO_GENERALIZE>b</TO_GENERALIZE>.'')
     = Some ([], (text_of ''a''), (text_of '' and <TO_GENERALIZE>b</TO_GENERALIZE>.'')) \<and>
   re_search (text_of '' and <TO_GENERALIZE>b</TO_GENERALIZE>.'') = Some ((text_of '' and ''), (text_of ''b''), (text_of ''.'')) \<and>
   extract_spans [(text_of ''<TO_GENERALIZE>a</TO_GENERALIZE> and <TO_GENERALIZE>b</TO_GENERALIZE>.'')]
     = ([0], [(text_of ''a'')]) \<and>
   reassemble (\<lambda>v. (text_of ''?''))
      [(text_of ''<TO_GENERALIZE>a</TO_GENERALIZE> and <TO_GENERALIZE>b</TO_GENERALIZE>.'')]
      [0] [PStr (text_of ''X'')] = Inr [(text_of ''X and X.'')]"
proof -
  let ?line = "(text_of ''<TO_GENERALIZE>a</TO_GENERALIZE> and <TO_GENERALIZE>b</TO_GENERALIZE>.'')"
  have first: "re_search ?line = Some ([], (text_of ''a''), (text_of '' and <TO_GENERALIZE>b</TO_GENERALIZE>.''))"
    and second: "re_search (text_of '' and <TO_GENERALIZE>b</TO_GENERALIZE>.'') = Some ((text_of '' and ''), (text_of ''b''), (text_of ''.''))"
    by (simp_all add: re_search_def OPEN_TAG_def CLOSE_TAG_def text_of_def)
  have spans: "extract_spans [?line] = ([0], [(text_of ''a'')])"
    by (simp add: extract_spans_def enumerate_eq_zip contains_def re_search_def
          OPEN_TAG_def CLOSE_TAG_def text_of_def)
  have out: "reassemble (\<lambda>v. (text_of ''?'')) [?line] [0] [PStr (text_of ''X'')] = Inr [(text_of ''X and X.'')]"
    by (simp add: reassemble_def enumerate_eq_zip re_search_def OPEN_TAG_def CLOSE_TAG_def
          to_text_def re_sub.simps text_of_def)
  have "(0::nat) < length [?line]" by simp
  moreover have "re_search ([?line] ! 0) = Some ([], (text_of ''a''), (text_of '' and <TO_GENERALIZE>b</TO_GENERALIZE>.''))"
    using first by simp
  moreover note second
  moreover have "length (fst (extract_spans [?line])) \<le> length [PStr (text_of ''X'')]"
    using spans by simp
  ultimately have "\<exists>k out. k < length (fst (extract_spans [?line])) \<and>
           fst (extract_spans [?line]) ! k = 0 \<and> snd (extract_spans [?line]) ! k = (text_of ''a'') \<and>
           (\<forall>k'<length (fst (extract_spans [?line])).
              fst (extract_spans [?line]) ! k' = 0 \<longrightarrow> k' = k) \<and>
           reassemble (\<lambda>v. (text_of ''?'')) [?line] (fst (extract_spans [?line])) [PStr (text_of ''X'')] = Inr out \<and>
           out ! 0 = [] @ to_text (\<lambda>v. (text_of ''?'')) ([PStr (text_of ''X'')] ! k) @ (text_of '' and '')
                       @ to_text (\<lambda>v. (text_of ''?'')) ([PStr (text_of ''X'')] ! k)
                       @ re_sub (to_text (\<lambda>v. (text_of ''?'')) ([PStr (text_of ''X'')] ! k)) (text_of ''.'')"
    by (rule later_pairs_take_first_rewrite)
  with first second spans out show ?thesis by blast
qed

subsection \<open>Checkpoint store and batch loop\<close>

lemma run_batches_append:
  "run_batches json_loads service (xs @ ys) st =
     (case run_batches json_loads service xs st of
        None \<Rightarrow> None
      | Some st' \<Rightarrow> run_batches json_loads service ys st')"
proof (induction xs arbitrary: st)
  case Nil
  show ?case by simp
next
  case (Cons x xs)
  obtain i b where x: "x = (i, b)" by (cases x)
  show ?case
    unfolding x by (simp add: Cons.IH split: option.splits)
qed

lemma run_batches_skip:
  "\<forall>i \<in> fst ` set xs. i \<in> completed st \<Longrightarrow> run_batches json_loads service xs st = Some st"
proof (induction xs)
  case Nil
  show ?case by simp
next
  case (Cons x xs)
  obtain i b where x: "x = (i, b)" by (cases x)
  from Cons show ?case unfolding x by simp
qed

lemma run_batches_completed:
  "run_batches json_loads service xs st = Some st' \<Longrightarrow>
     completed st' = completed st \<union> fst ` set xs"
proof (induction xs arbitrary: st)
  case Nil
  then show ?case by simp
next
  case (Cons x xs)
  obtain i b where x: "x = (i, b)" by (cases x)
  show ?case
  proof (cases "i \<in> completed st")
    case True
    with Cons.prems x have "run_batches json_loads service xs st = Some st'" by simp
    from Cons.IH [OF this] True x show ?thesis by auto
  next
    case False
    with Cons.prems x obtain calls rs where
      "process_batch_with_retry json_loads (service i) b = Some (calls, rs)"
      and run: "run_batches json_loads service xs
             \<lparr>completed = insert i (completed st), cleaned = cleaned st @ rs,
              saved = Some \<lparr>completed_batches = insert i (completed st),
                            cleaned_texts = cleaned st @ rs\<rparr>,
              trace = trace st @ [Processed i calls]\<rparr> = Some st'"
      by (auto split: option.splits)
    from Cons.IH [OF run] x show ?thesis by auto
  qed
qed

lemma run_batches_saved:
  "run_batches json_loads service xs st = Some st' \<Longrightarrow>
   load_checkpoint (saved st) = \<lparr>completed_batches = completed st, cleaned_texts = cleaned st\<rparr> \<Longrightarrow>
   load_checkpoint (saved st') = \<lparr>completed_batches = completed st', cleaned_texts = cleaned st'\<rparr>"
proof (induction xs arbitrary: st)
  case Nil
  then show ?case by simp
next
  case (Cons x xs)
  obtain i b where x: "x = (i, b)" by (cases x)
  show ?case
  proof (cases "i \<in> completed st")
    case True
    with Cons.prems x have "run_batches json_loads service xs st = Some st'" by simp
    from Cons.IH [OF this Cons.prems(2)] show ?thesis .
  next
    case False
    with Cons.prems x obtain calls rs where
      "process_batch_with_retry json_loads (service i) b = Some (calls, rs)"
      and run: "run_batches json_loads service xs
             \<lparr>completed = insert i (completed st), cleaned = cleaned st @ rs,
              saved = Some \<lparr>completed_batches = insert i (completed st),
                            cleaned_texts = cleaned st @ rs\<rparr>,
              trace = trace st @ [Processed i calls]\<rparr> = Some st'"
      by (auto split: option.splits)
    show ?thesis
      by (rule Cons.IH [OF run]) (simp add: load_checkpoint_def)
  qed
qed

lemma run_batches_trace:
  "run_batches json_loads service xs (st\<lparr>trace := t\<rparr>) =
     (case run_batches json_loads service xs (st\<lparr>trace := []\<rparr>) of
        None \<Rightarrow> None
      | Some st' \<Rightarrow> Some (st'\<lparr>trace := t @ trace st'\<rparr>))"
proof (induction xs arbitrary: st t)
  case Nil
  show ?case by simp
next
  case (Cons x xs)
  obtain i b where x: "x = (i, b)" by (cases x)
  show ?case
  proof (cases "i \<in> completed st")
    case True
    with Cons.IH [where st = st and t = t] x show ?thesis by simp
  next
    case False
    show ?thesis
    proof (cases "process_batch_with_retry json_loads (service i) b")
      case None
      with False x show ?thesis by simp
    next
      case (Some r)
      obtain calls rs where r: "r = (calls, rs)" by (cases r)
      let ?st0 = "\<lparr>completed = insert i (completed st), cleaned = cleaned st @ rs,
              saved = Some \<lparr>completed_batches = insert i (completed st),
                            cleaned_texts = cleaned st @ rs\<rparr>,
              trace = []\<rparr>"
      have lhs: "run_batches json_loads service (x # xs) (st\<lparr>trace := t\<rparr>)
                   = run_batches json_loads service xs (?st0\<lparr>trace := t @ [Processed i calls]\<rparr>)"
        using False Some r x by simp
      have rhs: "run_batches json_loads service (x # xs) (st\<lparr>trace := []\<rparr>)
                   = run_batches json_loads service xs (?st0\<lparr>trace := [Processed i calls]\<rparr>)"
        using False Some r x by simp
      show ?thesis
      proof (cases "run_batches json_loads service xs (?st0\<lparr>trace := []\<rparr>)")
        case None
        with Cons.IH [where st = ?st0 and t = "t @ [Processed i calls]"] Cons.IH [where st = ?st0 and t = "[Processed i calls]"]
        show ?thesis unfolding lhs rhs by simp
      next
        case (Some s)
        with Cons.IH [where st = ?st0 and t = "t @ [Processed i calls]"] Cons.IH [where st = ?st0 and t = "[Processed i calls]"]
        show ?thesis unfolding lhs rhs by simp
      qed
    qed
  qed
qed

lemma run_batches_trace_entries:
  "run_batches json_loads service xs st = Some st' \<Longrightarrow>
     \<exists>t. trace st' = trace st @ t \<and>
         (\<forall>e \<in> set t. \<exists>i n. e = Processed i n \<and> i \<in> fst ` set xs \<and> i \<notin> completed st)"
proof (induction xs arbitrary: st)
  case Nil
  then show ?case by simp
next
  case (Cons x xs)
  obtain i b where x: "x = (i, b)" by (cases x)
  show ?case
  proof (cases "i \<in> completed st")
    case True
    with Cons.prems x have "run_batches json_loads service xs st = Some st'" by simp
    from Cons.IH [OF this] obtain t where
      t: "trace st' = trace st @ t"
         "\<forall>e \<in> set t. \<exists>j n. e = Processed j n \<and> j \<in> fst ` set xs \<and> j \<notin> completed st"
      by blast
    from t(2) have "\<forall>e \<in> set t.
        \<exists>j n. e = Processed j n \<and> j \<in> fst ` set (x # xs) \<and> j \<notin> completed st"
      by fastforce
    with t(1) show ?thesis by blast
  next
    case False
    with Cons.prems x obtain calls rs where
      "process_batch_with_retry json_loads (service i) b = Some (calls, rs)"
      and run: "run_batches json_loads service xs
             \<lparr>completed = insert i (completed st), cleaned = cleaned st @ rs,
              saved = Some \<lparr>completed_batches = insert i (completed st),
                            cleaned_texts = cleaned st @ rs\<rparr>,
              trace = trace st @ [Processed i calls]\<rparr> = Some st'"
      by (auto split: option.splits)
    from Cons.IH [OF run] obtain t where
      t: "trace st' = (trace st @ [Processed i calls]) @ t"
         "\<forall>e \<in> set t. \<exists>j n. e = Processed j n \<and> j \<in> fst ` set xs \<and>
              j \<notin> insert i (completed st)"
      by auto
    have "trace st' = trace st @ (Processed i calls # t)" using t(1) by simp
    moreover have "\<forall>e \<in> set (Processed i calls # t).
        \<exists>j n. e = Processed j n \<and> j \<in> fst ` set (x # xs) \<and> j \<notin> completed st"
      using t(2) False x by fastforce
    ultimately show ?thesis by blast
  qed
qed

lemma fst_take_enumerate:
  assumes "k \<le> length xs"
  shows "fst ` set (take k (enumerate 0 xs)) = {0..<k}"
proof -
  have "map fst (take k (enumerate 0 xs)) = take k [0..<length xs]"
    by (simp add: take_map [symmetric])
  then have "set (map fst (take k (enumerate 0 xs))) = set (take k [0..<length xs])"
    by (rule arg_cong)
  with assms show ?thesis by simp
qed

lemma fst_drop_enumerate:
  "fst ` set (drop k (enumerate 0 xs)) \<subseteq> {0..<length xs}"
proof -
  have "fst ` set (enumerate 0 xs) = set (map fst (enumerate 0 xs))"
    by (simp only: set_map)
  also have "\<dots> = {0..<length xs}" by simp
  finally have all: "fst ` set (enumerate 0 xs) = {0..<length xs}" .
  have "fst ` set (drop k (enumerate 0 xs)) \<subseteq> fst ` set (enumerate 0 xs)"
    by (intro image_mono set_drop_subset)
  with all show ?thesis by simp
qed

text \<open>
  C7: let a prior run from an empty checkpoint have completed the first \<open>k\<close> batches
  (\<open>k = 2\<close> of 3 in the claim) and left its checkpoint. The checkpoint records exactly
  the batches \<open>0, \<dots>, k - 1\<close>. A run resumed from it skips them and processes only the
  batches from \<open>k\<close> on, in ascending order, and it ends exactly when the uninterrupted
  run with the same service behaviour per batch ends, with the same accumulated texts
  element for element, the same completed set and the same saved checkpoint; what the
  uninterrupted run processed is what the prior run and the resumed run processed, in
  that order.
\<close>

theorem resume_equals_uninterrupted:
  assumes "k \<le> length batches"
    and "run_batches json_loads service (take k (enumerate 0 batches)) (initial_state None)
           = Some st_k"
  shows "completed_batches (load_checkpoint (saved st_k)) = {0..<k} \<and>
         (case run_batches json_loads service (enumerate 0 batches) (initial_state None) of
            None \<Rightarrow>
              run_batches json_loads service (enumerate 0 batches) (initial_state (saved st_k))
                = None
          | Some full \<Rightarrow>
              (\<exists>resumed.
                 run_batches json_loads service (enumerate 0 batches)
                   (initial_state (saved st_k)) = Some resumed \<and>
                 cleaned resumed = cleaned full \<and> completed resumed = completed full \<and>
                 saved resumed = saved full \<and>
                 trace full = trace st_k @ trace resumed \<and>
                 (\<forall>e \<in> set (trace resumed).
                    \<exists>i n. e = Processed i n \<and> k \<le> i \<and> i < length batches)))"
proof -
  let ?E = "enumerate 0 batches"
  let ?run = "run_batches json_loads service"
  have split: "?E = take k ?E @ drop k ?E" by simp
  have init: "load_checkpoint (saved (initial_state None))
      = \<lparr>completed_batches = completed (initial_state None),
         cleaned_texts = cleaned (initial_state None)\<rparr>"
    by (simp add: initial_state_def load_checkpoint_def)
  from run_batches_saved [OF assms(2) init]
  have ckpt: "load_checkpoint (saved st_k)
      = \<lparr>completed_batches = completed st_k, cleaned_texts = cleaned st_k\<rparr>" .
  from run_batches_completed [OF assms(2)] fst_take_enumerate [OF assms(1)]
  have first_k: "completed st_k = {0..<k}"
    by (simp add: initial_state_def load_checkpoint_def)
  from ckpt have start: "initial_state (saved st_k) = st_k\<lparr>trace := []\<rparr>"
    by (simp add: initial_state_def)
  have full: "?run ?E (initial_state None) = ?run (drop k ?E) st_k"
    by (subst split, subst run_batches_append) (simp add: assms(2))
  have "\<forall>i \<in> fst ` set (take k ?E). i \<in> completed (st_k\<lparr>trace := []\<rparr>)"
    using first_k fst_take_enumerate [OF assms(1)] by simp
  then have "?run (take k ?E) (st_k\<lparr>trace := []\<rparr>) = Some (st_k\<lparr>trace := []\<rparr>)"
    by (rule run_batches_skip)
  then have resumed: "?run ?E (initial_state (saved st_k)) = ?run (drop k ?E) (st_k\<lparr>trace := []\<rparr>)"
    unfolding start by (subst split, subst run_batches_append) simp
  have link: "?run (drop k ?E) st_k =
      (case ?run (drop k ?E) (st_k\<lparr>trace := []\<rparr>) of
         None \<Rightarrow> None
       | Some s \<Rightarrow> Some (s\<lparr>trace := trace st_k @ trace s\<rparr>))"
    using run_batches_trace [where xs = "drop k ?E" and st = st_k and t = "trace st_k"] by simp
  have second: "case ?run ?E (initial_state None) of
            None \<Rightarrow> ?run ?E (initial_state (saved st_k)) = None
          | Some full \<Rightarrow>
              (\<exists>resumed.
                 ?run ?E (initial_state (saved st_k)) = Some resumed \<and>
                 cleaned resumed = cleaned full \<and> completed resumed = completed full \<and>
                 saved resumed = saved full \<and>
                 trace full = trace st_k @ trace resumed \<and>
                 (\<forall>e \<in> set (trace resumed).
                    \<exists>i n. e = Processed i n \<and> k \<le> i \<and> i < length batches))"
  proof (cases "?run (drop k ?E) (st_k\<lparr>trace := []\<rparr>)")
    case None
    with link full resumed show ?thesis by simp
  next
    case (Some s)
    from run_batches_trace_entries [OF Some] obtain t where
      t: "trace s = t"
         "\<forall>e \<in> set t. \<exists>i n. e = Processed i n \<and> i \<in> fst ` set (drop k ?E) \<and>
              i \<notin> completed st_k"
      by auto
    have "\<forall>e \<in> set (trace s). \<exists>i n. e = Processed i n \<and> k \<le> i \<and> i < length batches"
    proof
      fix e assume "e \<in> set (trace s)"
      with t obtain i n where e: "e = Processed i n" "i \<in> fst ` set (drop k ?E)"
        "i \<notin> completed st_k" by blast
      from e(2) fst_drop_enumerate [of k batches] have "i < length batches" by auto
      moreover from e(3) first_k have "k \<le> i" by simp
      ultimately show "\<exists>i n. e = Processed i n \<and> k \<le> i \<and> i < length batches"
        using e(1) by blast
    qed
    with Some link full resumed show ?thesis by simp
  qed
  from ckpt first_k have "completed_batches (load_checkpoint (saved st_k)) = {0..<k}" by simp
  with second show ?thesis by simp
qed

theorem resume_equals_uninterrupted_witness:
  "(2::nat) \<le> length [[(text_of ''x0'')], [(text_of ''x1'')], [(text_of ''x2'')]] \<and>
   run_batches (\<lambda>s. Inr (PList [PStr s]))
     (\<lambda>i n. Text (if i = 0 then (text_of ''r0'') else if i = 1 then (text_of ''r1'') else (text_of ''r2'')))
     (take 2 (enumerate 0 [[(text_of ''x0'')], [(text_of ''x1'')], [(text_of ''x2'')]])) (initial_state None)
     = Some \<lparr>completed = {1, 0}, cleaned = [PStr (text_of ''r0''), PStr (text_of ''r1'')],
              saved = Some \<lparr>completed_batches = {1, 0},
                            cleaned_texts = [PStr (text_of ''r0''), PStr (text_of ''r1'')]\<rparr>,
              trace = [Processed 0 1, Processed 1 1]\<rparr> \<and>
   run_batches (\<lambda>s. Inr (PList [PStr s]))
     (\<lambda>i n. Text (if i = 0 then (text_of ''r0'') else if i = 1 then (text_of ''r1'') else (text_of ''r2'')))
     (enumerate 0 [[(text_of ''x0'')], [(text_of ''x1'')], [(text_of ''x2'')]]) (initial_state None)
     = Some \<lparr>completed = {2, 1, 0}, cleaned = [PStr (text_of ''r0''), PStr (text_of ''r1''), PStr (text_of ''r2'')],
              saved = Some \<lparr>completed_batches = {2, 1, 0},
                            cleaned_texts = [PStr (text_of ''r0''), PStr (text_of ''r1''), PStr (text_of ''r2'')]\<rparr>,
              trace = [Processed 0 1, Processed 1 1, Processed 2 1]\<rparr> \<and>
   run_batches (\<lambda>s. Inr (PList [PStr s]))
     (\<lambda>i n. Text (if i = 0 then (text_of ''r0'') else if i = 1 then (text_of ''r1'') else (text_of ''r2'')))
     (enumerate 0 [[(text_of ''x0'')], [(text_of ''x1'')], [(text_of ''x2'')]])
     (initial_state (Some \<lparr>completed_batches = {1, 0},
                            cleaned_texts = [PStr (text_of ''r0''), PStr (text_of ''r1'')]\<rparr>))
     = Some \<lparr>completed = {2, 1, 0}, cleaned = [PStr (text_of ''r0''), PStr (text_of ''r1''), PStr (text_of ''r2'')],
              saved = Some \<lparr>completed_batches = {2, 1, 0},
                            cleaned_texts = [PStr (text_of ''r0''), PStr (text_of ''r1''), PStr (text_of ''r2'')]\<rparr>,
              trace = [Processed 2 1]\<rparr>"
proof -
  let ?loads = "\<lambda>s. Inr (PList [PStr s])"
  let ?service = "\<lambda>i n::nat. Text (if i = (0::nat) then (text_of ''r0'') else if i = 1 then (text_of ''r1'') else (text_of ''r2''))"
  let ?batches = "[[(text_of ''x0'')], [(text_of ''x1'')], [(text_of ''x2'')]]"
  note eval = enumerate_eq_zip initial_state_def load_checkpoint_def
    process_batch_with_retry_def retry_loop.simps max_retries_def attempt_def
    pad_with_originals.simps clean_json_text_def strip_def is_space_def endswith_def
    suffix_def numeral_2_eq_2 text_of_def
  have enough: "(2::nat) \<le> length ?batches" by simp
  have prior: "run_batches ?loads ?service (take 2 (enumerate 0 ?batches)) (initial_state None)
     = Some \<lparr>completed = {1, 0}, cleaned = [PStr (text_of ''r0''), PStr (text_of ''r1'')],
              saved = Some \<lparr>completed_batches = {1, 0},
                            cleaned_texts = [PStr (text_of ''r0''), PStr (text_of ''r1'')]\<rparr>,
              trace = [Processed 0 1, Processed 1 1]\<rparr>"
    by (simp add: eval)
  have whole: "run_batches ?loads ?service (enumerate 0 ?batches) (initial_state None)
     = Some \<lparr>completed = {2, 1, 0}, cleaned = [PStr (text_of ''r0''), PStr (text_of ''r1''), PStr (text_of ''r2'')],
              saved = Some \<lparr>completed_batches = {2, 1, 0},
                            cleaned_texts = [PStr (text_of ''r0''), PStr (text_of ''r1''), PStr (text_of ''r2'')]\<rparr>,
              trace = [Processed 0 1, Processed 1 1, Processed 2 1]\<rparr>"
    by (simp add: eval)
  have again: "run_batches ?loads ?service (enumerate 0 ?batches)
     (initial_state (Some \<lparr>completed_batches = {1, 0},
                            cleaned_texts = [PStr (text_of ''r0''), PStr (text_of ''r1'')]\<rparr>))
     = Some \<lparr>completed = {2, 1, 0}, cleaned = [PStr (text_of ''r0''), PStr (text_of ''r1''), PStr (text_of ''r2'')],
              saved = Some \<lparr>completed_batches = {2, 1, 0},
                            cleaned_texts = [PStr (text_of ''r0''), PStr (text_of ''r1''), PStr (text_of ''r2'')]\<rparr>,
              trace = [Processed 2 1]\<rparr>"
    by (simp add: eval)
  from resume_equals_uninterrupted [OF enough prior] enough prior whole again
  show ?thesis by blast
qed

end

